theory Spec2Isabelle
  imports Main "HOL-Library.Signed_Division"
begin

section \<open>The neighborhood-neighborhood CPU kernel for 1D data\<close>

text \<open>
  This theory embeds \<^verbatim>\<open>NeighborhoodNeighborhood1D\<close> of
  \<^verbatim>\<open>csrc/include/natten/cpu/naive/neighborhood_neighborhood_1d.hpp\<close>: the kernel that
  applies neighborhood attention weights to neighborhood values.

  \<^item> The three raw pointers point into one address space. Memory is a store from
    addresses to elements; an address counts elements of \<^verbatim>\<open>scalar_t\<close>, so that
    \<^verbatim>\<open>p[k]\<close> is the store at \<open>p + k\<close>. Nothing in the model keeps the three buffers
    apart: whether they overlap is a property of the pointers passed.
  \<^item> \<^verbatim>\<open>scalar_t\<close> is a type parameter with a zero, an addition and a multiplication
    about which nothing is assumed (floating-point addition is not associative).
  \<^item> \<^verbatim>\<open>int32_t\<close> and \<^verbatim>\<open>int64_t\<close> values are integers. The loop counters \<open>b\<close>,
    \<open>h\<close>, \<open>i\<close> and \<open>d\<close> stay below a bound that is itself an \<^verbatim>\<open>int32_t\<close>, so their
    increments cannot overflow. The counter \<open>xi\<close> is advanced by \<open>dilation\<close> and can
    leave the \<^verbatim>\<open>int32_t\<close> range: that signed overflow is undefined behaviour and is a
    result \<open>None\<close> of the model, as is a loop that does not end. The \<^verbatim>\<open>int64_t\<close>
    offsets address elements of buffers that exist in memory and are taken as exact.
\<close>

type_synonym 'a heap = "int \<Rightarrow> 'a"

definition INT32_MAX :: int where
  "INT32_MAX = 2147483647"

text \<open>\<^verbatim>\<open>#define GRAIN_SIZE 0\<close>\<close>

definition GRAIN_SIZE :: int where
  "GRAIN_SIZE = 0"

text \<open>
  The parameters of \<^verbatim>\<open>launch\<close>, under the names of the source (\<open>values'\<close>, \<open>output'\<close> and
  \<open>length'\<close> are the parameters \<^verbatim>\<open>values\<close>, \<^verbatim>\<open>output\<close> and \<^verbatim>\<open>length\<close>; the one-element
  tuple \<^verbatim>\<open>is_causal\<close> is its component).
\<close>

record nn1d_args =
  weights :: int
  values' :: int
  output' :: int
  length' :: int
  heads :: int
  kernel_size :: int
  dilation :: int
  dim :: int
  batch_size :: int
  weights_stride_0 :: int
  weights_stride_1 :: int
  weights_stride_2 :: int
  is_causal :: bool

definition neighborhood_size :: "nn1d_args \<Rightarrow> int" where
  "neighborhood_size args = kernel_size args sdiv 2"

definition values_stride_2 :: "nn1d_args \<Rightarrow> int" where
  "values_stride_2 args = dim args"

definition values_stride_1 :: "nn1d_args \<Rightarrow> int" where
  "values_stride_1 args = length' args * values_stride_2 args"

definition values_stride_0 :: "nn1d_args \<Rightarrow> int" where
  "values_stride_0 args = heads args * values_stride_1 args"

subsection \<open>What the kernel takes from outside this file\<close>

text \<open>
  \<^verbatim>\<open>get_window_start\<close> and \<^verbatim>\<open>get_window_end\<close> come from
  \<^verbatim>\<open>natten/cpu/naive/natten_cpu_commons.h\<close>. The kernel is modelled for any pair of
  functions of their signatures; the arguments are, in the order of the calls,
  \<open>index length kernel_size neighborhood_size dilation is_causal\<close> and
  \<open>index start_index length kernel_size neighborhood_size dilation is_causal\<close>.
\<close>

type_synonym window_start_fn = "int \<Rightarrow> int \<Rightarrow> int \<Rightarrow> int \<Rightarrow> int \<Rightarrow> bool \<Rightarrow> int"
type_synonym window_end_fn = "int \<Rightarrow> int \<Rightarrow> int \<Rightarrow> int \<Rightarrow> int \<Rightarrow> int \<Rightarrow> bool \<Rightarrow> int"

text \<open>
  \<^verbatim>\<open>at::parallel_for(begin, end, grain_size, f)\<close> belongs to ATen. It cuts
  \<open>[begin, end)\<close> into chunks and calls \<open>f(start, end)\<close> on each chunk, on some
  thread. Which chunks, and in which order they complete, is the runtime's choice: a
  scheduler is a function that answers it from \<open>begin\<close>, \<open>end\<close> and \<open>grain_size\<close>.
  The calls of \<open>f\<close> are run one after the other in the scheduler's order.
\<close>

type_synonym scheduler = "int \<Rightarrow> int \<Rightarrow> int \<Rightarrow> (int \<times> int) list"

fun run_chunks :: "(int \<times> int) list \<Rightarrow> (int \<Rightarrow> int \<Rightarrow> 's \<Rightarrow> 's option) \<Rightarrow> 's \<Rightarrow> 's option" where
  "run_chunks [] f s = Some s"
| "run_chunks ((start, end') # cs) f s =
     (case f start end' s of None \<Rightarrow> None | Some s' \<Rightarrow> run_chunks cs f s')"

definition parallel_for ::
  "scheduler \<Rightarrow> int \<Rightarrow> int \<Rightarrow> int \<Rightarrow> (int \<Rightarrow> int \<Rightarrow> 's \<Rightarrow> 's option) \<Rightarrow> 's \<Rightarrow> 's option" where
  "parallel_for sched begin' end' grain_size f s =
     (if end' \<le> begin' then Some s else run_chunks (sched begin' end' grain_size) f s)"

subsection \<open>The loops\<close>

text \<open>\<^verbatim>\<open>for (int32_t k = lo; k < hi; k++) body\<close>\<close>

function for_range :: "int \<Rightarrow> int \<Rightarrow> (int \<Rightarrow> 's \<Rightarrow> 's option) \<Rightarrow> 's \<Rightarrow> 's option" where
  "for_range lo hi body s =
     (if lo < hi then
        (case body lo s of None \<Rightarrow> None | Some s' \<Rightarrow> for_range (lo + 1) hi body s')
      else Some s)"
  by pat_completeness auto
termination
  by (relation "measure (\<lambda>(lo, hi, body, s). nat (hi - lo))") auto

declare for_range.simps [simp del]

text \<open>
  \<^verbatim>\<open>for (int32_t xi = ni; xi < ei; xi += dilation) {
    int64_t valuesIndex = valuesOffset + xi * values_stride_2;
    output_update += weights[attnOffset] * values[valuesIndex];
    ++attnOffset; }\<close>

  The accumulator \<open>output_update\<close> is a \<^verbatim>\<open>scalar_t\<close>. After the body the counter is
  advanced: with \<open>dilation \<le> 0\<close> the loop does not come to an end, and a sum
  \<open>xi + dilation\<close> above \<open>INT32_MAX\<close> is a signed overflow.
\<close>

function xi_loop ::
  "('a::{zero,plus,times}) heap \<Rightarrow> nn1d_args \<Rightarrow> int \<Rightarrow> int \<Rightarrow> int \<Rightarrow> int \<Rightarrow> 'a \<Rightarrow> 'a option" where
  "xi_loop mem args valuesOffset ei xi attnOffset output_update =
     (if xi < ei then
        (let valuesIndex = valuesOffset + xi * values_stride_2 args;
             output_update' =
               output_update + mem (weights args + attnOffset) * mem (values' args + valuesIndex);
             attnOffset' = attnOffset + 1
         in if dilation args \<le> 0 \<or> INT32_MAX < xi + dilation args then None
            else xi_loop mem args valuesOffset ei (xi + dilation args) attnOffset' output_update')
      else Some output_update)"
  by pat_completeness auto
termination
  by (relation "measure (\<lambda>(mem, args, valuesOffset, ei, xi, attnOffset, output_update). nat (ei - xi))")
     auto

declare xi_loop.simps [simp del]

text \<open>The body of the loop over \<open>d\<close>: one output element.\<close>

definition d_body ::
  "nn1d_args \<Rightarrow> int \<Rightarrow> int \<Rightarrow> int \<Rightarrow> int \<Rightarrow> int \<Rightarrow> int \<Rightarrow> ('a::{zero,plus,times}) heap \<Rightarrow> 'a heap option" where
  "d_body args ni ei b h i d mem =
     (let attnOffset =
            b * weights_stride_0 args + h * weights_stride_1 args + i * weights_stride_2 args;
          valuesOffset = b * values_stride_0 args + h * values_stride_1 args + d
      in case xi_loop mem args valuesOffset ei ni attnOffset 0 of
           None \<Rightarrow> None
         | Some output_update \<Rightarrow>
             (let linearIndex =
                    b * values_stride_0 args + h * values_stride_1 args
                      + i * values_stride_2 args + d
              in Some (mem(output' args + linearIndex := output_update))))"

text \<open>The body of the loop over \<open>i\<close>: the window of query position \<open>i\<close>, then all channels.\<close>

definition i_body ::
  "window_start_fn \<Rightarrow> window_end_fn \<Rightarrow> nn1d_args \<Rightarrow> int \<Rightarrow> int \<Rightarrow> int
     \<Rightarrow> ('a::{zero,plus,times}) heap \<Rightarrow> 'a heap option" where
  "i_body gws gwe args b h i mem =
     (let ni = gws i (length' args) (kernel_size args) (neighborhood_size args)
                 (dilation args) (is_causal args);
          ei = gwe i ni (length' args) (kernel_size args) (neighborhood_size args)
                 (dilation args) (is_causal args)
      in for_range 0 (dim args) (d_body args ni ei b h i) mem)"

text \<open>The function object passed to \<^verbatim>\<open>at::parallel_for\<close>: the heads of one chunk.\<close>

definition task ::
  "window_start_fn \<Rightarrow> window_end_fn \<Rightarrow> nn1d_args \<Rightarrow> int \<Rightarrow> int \<Rightarrow> int
     \<Rightarrow> ('a::{zero,plus,times}) heap \<Rightarrow> 'a heap option" where
  "task gws gwe args b start end' mem =
     for_range start end'
       (\<lambda>h. for_range 0 (length' args) (i_body gws gwe args b h)) mem"

text \<open>
  \<^verbatim>\<open>launch\<close>. The scheduler of the call of \<^verbatim>\<open>at::parallel_for\<close> made for batch
  index \<open>b\<close> is \<open>sched b\<close>: the runtime may cut the heads differently each time.
\<close>

definition launch ::
  "(int \<Rightarrow> scheduler) \<Rightarrow> window_start_fn \<Rightarrow> window_end_fn \<Rightarrow> nn1d_args
     \<Rightarrow> ('a::{zero,plus,times}) heap \<Rightarrow> 'a heap option" where
  "launch sched gws gwe args mem =
     for_range 0 (batch_size args)
       (\<lambda>b. parallel_for (sched b) 0 (heads args) GRAIN_SIZE (task gws gwe args b)) mem"

text \<open>
  \<^verbatim>\<open>operator()\<close>: the entry point. It casts the three pointers and passes its
  arguments on to \<^verbatim>\<open>launch\<close>.
\<close>

definition NeighborhoodNeighborhood1D ::
  "(int \<Rightarrow> scheduler) \<Rightarrow> window_start_fn \<Rightarrow> window_end_fn
     \<Rightarrow> int \<Rightarrow> int \<Rightarrow> int \<Rightarrow> int \<Rightarrow> int \<Rightarrow> int \<Rightarrow> int \<Rightarrow> int \<Rightarrow> int \<Rightarrow> int
     \<Rightarrow> int \<Rightarrow> int \<Rightarrow> bool \<Rightarrow> ('a::{zero,plus,times}) heap \<Rightarrow> 'a heap option" where
  "NeighborhoodNeighborhood1D sched gws gwe attn_ptr value_ptr output_ptr
       batch_size_a heads_a length_a dim_a attn_stride_0 attn_stride_1 attn_stride_2
       kernel_size_a dilation_a is_causal_a mem =
     launch sched gws gwe
       \<lparr>weights = attn_ptr, values' = value_ptr, output' = output_ptr,
        length' = length_a, heads = heads_a, kernel_size = kernel_size_a,
        dilation = dilation_a, dim = dim_a, batch_size = batch_size_a,
        weights_stride_0 = attn_stride_0, weights_stride_1 = attn_stride_1,
        weights_stride_2 = attn_stride_2, is_causal = is_causal_a\<rparr> mem"

section \<open>The window helpers\<close>

text \<open>
  Modelled from the spec: \<^verbatim>\<open>get_window_start\<close> and \<^verbatim>\<open>get_window_end\<close>
  of \<^verbatim>\<open>natten/cpu/naive/natten_cpu_commons.h\<close>, which is not among the sources. The
  specification gives their contract: the window is computed within the sub-problem
  induced by \<open>index mod dilation\<close>, whose positions are \<open>m, m + D, m + 2 D, \<dots>\<close> below
  the extent, numbered \<open>0, 1, \<dots>, n - 1\<close>, the query being number \<open>q\<close>. Non-causal:
  the window is centered on the query (\<open>q - r\<close>), clipped to the axis (not below \<open>0\<close>),
  and re-expanded on the opposite side (not above \<open>n - K\<close>, so that \<open>K\<close> steps fit
  whenever \<open>n \<ge> K\<close>). Causal: \<open>K - 1\<close> steps back from the query, not below \<open>0\<close>.
\<close>

definition get_window_start :: window_start_fn where
  "get_window_start index extent K r D causal =
     (let m = index mod D; q = index div D; n = (extent - m + D - 1) div D
      in (if causal then max 0 (q - K + 1) else max 0 (min (q - r) (n - K))) * D + m)"

text \<open>
  Modelled from the spec: \<^verbatim>\<open>get_window_end\<close> of the same header. Causal: the window
  ends just after the query, \<open>end = i + 1\<close>. Non-causal: \<open>kernel_size\<close> dilated steps
  from the start, clipped to the extent.
\<close>

definition get_window_end :: window_end_fn where
  "get_window_end index start extent K r D causal =
     (if causal then index + 1 else min extent (start + K * D))"

section \<open>Specification\<close>

subsection \<open>Windows and indices\<close>

text \<open>The neighbors of a window: \<open>start, start + D, \<dots>\<close> up to but excluding \<open>end\<close>.\<close>

function neighbors :: "int \<Rightarrow> int \<Rightarrow> int \<Rightarrow> int list" where
  "neighbors start end' D =
     (if start < end' \<and> 0 < D then start # neighbors (start + D) end' D else [])"
  by pat_completeness auto

termination
  by (relation "measure (\<lambda>(start, end', D). nat (end' - start))") auto

declare neighbors.simps [simp del]

text \<open>The window of query position \<open>i\<close>, with the arguments \<^verbatim>\<open>launch\<close> passes.\<close>

definition window_start :: "window_start_fn \<Rightarrow> nn1d_args \<Rightarrow> int \<Rightarrow> int" where
  "window_start gws args i =
     gws i (length' args) (kernel_size args) (neighborhood_size args) (dilation args) (is_causal args)"

definition window_end :: "window_start_fn \<Rightarrow> window_end_fn \<Rightarrow> nn1d_args \<Rightarrow> int \<Rightarrow> int" where
  "window_end gws gwe args i =
     gwe i (window_start gws args i) (length' args) (kernel_size args) (neighborhood_size args)
       (dilation args) (is_causal args)"

definition window :: "window_start_fn \<Rightarrow> window_end_fn \<Rightarrow> nn1d_args \<Rightarrow> int \<Rightarrow> int list" where
  "window gws gwe args i =
     neighbors (window_start gws args i) (window_end gws gwe args i) (dilation args)"

text \<open>
  The offset of weight \<open>k\<close> of query row \<open>(b, h, i)\<close>, and the offset of element
  \<open>(b, h, i, d)\<close> of the values and of the output.
\<close>

definition attn_index :: "nn1d_args \<Rightarrow> int \<Rightarrow> int \<Rightarrow> int \<Rightarrow> int \<Rightarrow> int" where
  "attn_index args b h i k =
     b * weights_stride_0 args + h * weights_stride_1 args + i * weights_stride_2 args + k"

definition linearIndex :: "nn1d_args \<Rightarrow> int \<Rightarrow> int \<Rightarrow> int \<Rightarrow> int \<Rightarrow> int" where
  "linearIndex args b h i d =
     b * values_stride_0 args + h * values_stride_1 args + i * values_stride_2 args + d"

text \<open>
  The aggregate pattern: the weighted sum over the neighbors \<open>ns\<close>, the \<open>k\<close>-th neighbor
  with the \<open>k\<close>-th weight of the row, added up from the left, starting from zero.
\<close>

definition aggregate ::
  "('a::{zero,plus,times}) heap \<Rightarrow> nn1d_args \<Rightarrow> int \<Rightarrow> int \<Rightarrow> int \<Rightarrow> int \<Rightarrow> int list \<Rightarrow> 'a" where
  "aggregate mem args b h i d ns =
     foldl (\<lambda>acc k. acc + mem (weights args + attn_index args b h i (int k))
                          * mem (values' args + linearIndex args b h (ns ! k) d))
       0 [0..<length ns]"

subsection \<open>The output region\<close>

definition numel :: "nn1d_args \<Rightarrow> int" where
  "numel args = batch_size args * heads args * length' args * dim args"

definition out_region :: "nn1d_args \<Rightarrow> int set" where
  "out_region args = {output' args ..< output' args + numel args}"

text \<open>The element \<open>(b, h, i, d)\<close> that lives at an offset into the output.\<close>

definition cell_of :: "nn1d_args \<Rightarrow> int \<Rightarrow> int \<times> int \<times> int \<times> int" where
  "cell_of args idx =
     (let d = idx mod dim args; q1 = idx div dim args;
          i = q1 mod length' args; q2 = q1 div length' args;
          h = q2 mod heads args; b = q2 div heads args
      in (b, h, i, d))"

text \<open>The heap after a call: every output element holds its aggregate over the heap before.\<close>

definition expected ::
  "window_start_fn \<Rightarrow> window_end_fn \<Rightarrow> nn1d_args \<Rightarrow> ('a::{zero,plus,times}) heap \<Rightarrow> int \<Rightarrow> 'a" where
  "expected gws gwe args mem a =
     (case cell_of args (a - output' args) of
        (b, h, i, d) \<Rightarrow> aggregate mem args b h i d (window gws gwe args i))"

definition final_heap ::
  "window_start_fn \<Rightarrow> window_end_fn \<Rightarrow> nn1d_args \<Rightarrow> ('a::{zero,plus,times}) heap \<Rightarrow> 'a heap" where
  "final_heap gws gwe args mem =
     (\<lambda>a. if a \<in> out_region args then expected gws gwe args mem a else mem a)"

definition row_cells :: "nn1d_args \<Rightarrow> int \<Rightarrow> int \<Rightarrow> int \<Rightarrow> int set" where
  "row_cells args b h i = (\<Union>d\<in>{0..<dim args}. {output' args + linearIndex args b h i d})"

definition head_cells :: "nn1d_args \<Rightarrow> int \<Rightarrow> int \<Rightarrow> int set" where
  "head_cells args b h = (\<Union>i\<in>{0..<length' args}. row_cells args b h i)"

definition batch_cells :: "nn1d_args \<Rightarrow> int \<Rightarrow> int set" where
  "batch_cells args b = (\<Union>h\<in>{0..<heads args}. head_cells args b h)"

subsection \<open>Validated input\<close>

text \<open>The shape and window parameters the boundary lets through.\<close>

definition validated :: "nn1d_args \<Rightarrow> bool" where
  "validated args \<longleftrightarrow>
     1 \<le> batch_size args \<and> 1 \<le> heads args \<and> 1 \<le> length' args \<and> 1 \<le> dim args
     \<and> 1 \<le> kernel_size args \<and> odd (kernel_size args) \<and> 1 \<le> dilation args"

text \<open>The counter \<open>xi\<close> stays an \<^verbatim>\<open>int32_t\<close> when it is advanced past the last neighbor.\<close>

definition counter_fits :: "window_start_fn \<Rightarrow> window_end_fn \<Rightarrow> nn1d_args \<Rightarrow> bool" where
  "counter_fits gws gwe args \<longleftrightarrow>
     (\<forall>i\<in>{0..<length' args}. \<forall>x\<in>set (window gws gwe args i). x + dilation args \<le> INT32_MAX)"

text \<open>
  The addresses read for output element \<open>(b, h, i, d)\<close>, and the precondition that the
  output overlaps none of them (the output may never alias the inputs).
\<close>

definition reads ::
  "window_start_fn \<Rightarrow> window_end_fn \<Rightarrow> nn1d_args \<Rightarrow> int \<Rightarrow> int \<Rightarrow> int \<Rightarrow> int \<Rightarrow> int list" where
  "reads gws gwe args b h i d =
     map (\<lambda>k. weights args + attn_index args b h i (int k)) [0..<length (window gws gwe args i)]
     @ map (\<lambda>x. values' args + linearIndex args b h x d) (window gws gwe args i)"

definition no_alias :: "window_start_fn \<Rightarrow> window_end_fn \<Rightarrow> nn1d_args \<Rightarrow> bool" where
  "no_alias gws gwe args \<longleftrightarrow>
     (\<forall>b\<in>{0..<batch_size args}. \<forall>h\<in>{0..<heads args}. \<forall>i\<in>{0..<length' args}.
        \<forall>d\<in>{0..<dim args}. \<forall>a\<in>set (reads gws gwe args b h i d). a \<notin> out_region args)"

text \<open>
  The documented layout of the weights, \<open>[batch, heads, length, kernel_size]\<close> without
  gaps, and two buffers \<open>[p, p + n)\<close> and \<open>[q, q + m)\<close> that do not overlap.
\<close>

definition contiguous_weights :: "nn1d_args \<Rightarrow> bool" where
  "contiguous_weights args \<longleftrightarrow>
     weights_stride_2 args = kernel_size args
     \<and> weights_stride_1 args = length' args * kernel_size args
     \<and> weights_stride_0 args = heads args * length' args * kernel_size args"

definition weights_numel :: "nn1d_args \<Rightarrow> int" where
  "weights_numel args = batch_size args * heads args * length' args * kernel_size args"

definition separate :: "int \<Rightarrow> int \<Rightarrow> int \<Rightarrow> int \<Rightarrow> bool" where
  "separate p n q m \<longleftrightarrow> p + n \<le> q \<or> q + m \<le> p"

subsection \<open>Schedules\<close>

text \<open>
  The heads a list of chunks visits, in order. The chunks partition \<open>[begin, end)\<close> when
  every index of the range is visited once and nothing else is. A scheduler is fair
  for a call when it partitions the heads each time \<^verbatim>\<open>launch\<close> asks.
\<close>

definition heads_of :: "(int \<times> int) list \<Rightarrow> int list" where
  "heads_of chunks = concat (map (\<lambda>(start, end'). [start..end' - 1]) chunks)"

definition partition_of :: "int \<Rightarrow> int \<Rightarrow> (int \<times> int) list \<Rightarrow> bool" where
  "partition_of begin' end' chunks \<longleftrightarrow>
     distinct (heads_of chunks) \<and> set (heads_of chunks) = {begin'..<end'}"

definition fair :: "(int \<Rightarrow> scheduler) \<Rightarrow> nn1d_args \<Rightarrow> bool" where
  "fair sched args \<longleftrightarrow>
     (\<forall>b\<in>{0..<batch_size args}. partition_of 0 (heads args) (sched b 0 (heads args) GRAIN_SIZE))"

text \<open>The scheduler that runs the whole range as one chunk.\<close>

definition sequential :: "int \<Rightarrow> scheduler" where
  "sequential b begin' end' grain_size = [(begin', end')]"

subsection \<open>A step that fills part of the output\<close>

text \<open>
  \<open>fills R m0 T W f\<close>: from every heap that agrees with \<open>m0\<close> outside \<open>R\<close>, the step
  \<open>f\<close> returns, and it returns the heap with \<open>T\<close> written over \<open>W\<close>.
\<close>

definition fills ::
  "int set \<Rightarrow> 'a heap \<Rightarrow> (int \<Rightarrow> 'a) \<Rightarrow> int set \<Rightarrow> ('a heap \<Rightarrow> 'a heap option) \<Rightarrow> bool" where
  "fills R m0 T W f \<longleftrightarrow>
     (\<forall>m. (\<forall>a. a \<notin> R \<longrightarrow> m a = m0 a) \<longrightarrow> f m = Some (\<lambda>a. if a \<in> W then T a else m a))"

subsection \<open>Example calls\<close>

definition example_args :: nn1d_args where
  "example_args =
     \<lparr>weights = 0, values' = 100, output' = 200, length' = 4, heads = 2, kernel_size = 3,
      dilation = 1, dim = 2, batch_size = 1, weights_stride_0 = 24, weights_stride_1 = 12,
      weights_stride_2 = 3, is_causal = False\<rparr>"

text \<open>The scheduler that runs every head as a chunk of its own, the last head first.\<close>

definition reversed :: "int \<Rightarrow> scheduler" where
  "reversed b begin' end' grain_size = rev (map (\<lambda>h. (h, h + 1)) [begin'..end' - 1])"

text \<open>
  The scenario of the specification: length 5, kernel size 3, dilation 1, dim 1, one
  batch, one head; the 15 weights at addresses 0 to 14, the 5 values at 15 to 19, the
  output at 20 to 24.
\<close>

definition scenario_args :: "bool \<Rightarrow> nn1d_args" where
  "scenario_args causal =
     \<lparr>weights = 0, values' = 15, output' = 20, length' = 5, heads = 1, kernel_size = 3,
      dilation = 1, dim = 1, batch_size = 1, weights_stride_0 = 15, weights_stride_1 = 15,
      weights_stride_2 = 3, is_causal = causal\<rparr>"

definition all_ones :: "int heap" where
  "all_ones = (\<lambda>a. if a < 20 then 1 else 0)"

subsection \<open>The grain size\<close>

text \<open>
  A runtime that serves a call of \<^verbatim>\<open>at::parallel_for\<close> only when it is asked with grain
  size \<open>g\<close>, as one chunk, and schedules nothing otherwise: it shows which grain size a
  call asks for.
\<close>

definition only_grain :: "int \<Rightarrow> int \<Rightarrow> scheduler" where
  "only_grain g b begin' end' grain_size = (if grain_size = g then [(begin', end')] else [])"

subsection \<open>Values addressed by strides\<close>

text \<open>
  Following the specification's words (direct memory addressing, strided, not
  contiguous-assumed): the aggregate of a kernel that would read the values at strides
  the caller supplies.
\<close>

definition strided_aggregate ::
  "('a::{zero,plus,times}) heap \<Rightarrow> nn1d_args \<Rightarrow> int \<times> int \<times> int \<times> int
     \<Rightarrow> int \<Rightarrow> int \<Rightarrow> int \<Rightarrow> int \<Rightarrow> int list \<Rightarrow> 'a" where
  "strided_aggregate mem args strides b h i d ns =
     (case strides of (stride_0, stride_1, stride_2, stride_3) \<Rightarrow>
        foldl (\<lambda>acc k. acc + mem (weights args + attn_index args b h i (int k))
                   * mem (values' args
                       + (b * stride_0 + h * stride_1 + (ns ! k) * stride_2 + d * stride_3)))
          0 [0..<length ns])"

text \<open>
  A call on values whose rows are padded: two positions of one channel, stored two
  elements apart at addresses 10 and 12, with padding at address 11.
\<close>

definition padded_args :: nn1d_args where
  "padded_args =
     \<lparr>weights = 0, values' = 10, output' = 20, length' = 2, heads = 1, kernel_size = 1,
      dilation = 1, dim = 1, batch_size = 1, weights_stride_0 = 2, weights_stride_1 = 2,
      weights_stride_2 = 1, is_causal = False\<rparr>"

definition padded_mem :: "int heap" where
  "padded_mem = (\<lambda>a. if a = 10 then 5 else if a = 11 then 7 else if a = 12 then 9 else 1)"

subsection \<open>A half-precision element type\<close>

text \<open>
  The integers among the binary16 numbers, below the overflow threshold. A binary16
  number has 11 significant bits: every integer of magnitude up to 2048 is one, from
  2048 to 4096 every second integer, and so on; \<open>ulp n\<close> is that spacing at magnitude
  \<open>n\<close>. The operators of \<^verbatim>\<open>c10::Half\<close> compute in single precision, which is exact
  on integers of these magnitudes, and round the result to binary16, to the nearest
  number, a tie to the even significand.
\<close>

datatype half = Half int

fun widen :: "half \<Rightarrow> int" where
  "widen (Half n) = n"

function ulp :: "int \<Rightarrow> int" where
  "ulp n = (if n < 2048 then 1 else 2 * ulp (n div 2))"
  by pat_completeness auto
termination
  by (relation "measure nat") auto

declare ulp.simps [simp del]

definition round_half :: "int \<Rightarrow> int" where
  "round_half n =
     (let u = ulp \<bar>n\<bar>; q = \<bar>n\<bar> div u; r = \<bar>n\<bar> mod u;
          q' = (if 2 * r < u then q else if u < 2 * r then q + 1
                else if even q then q else q + 1)
      in sgn n * (q' * u))"

definition narrow :: "int \<Rightarrow> half" where
  "narrow n = Half (round_half n)"

instantiation half :: "{zero,plus,times}"
begin

definition zero_half :: half where
  "zero_half = Half 0"

definition plus_half :: "half \<Rightarrow> half \<Rightarrow> half" where
  "plus_half x y = narrow (widen x + widen y)"

definition times_half :: "half \<Rightarrow> half \<Rightarrow> half" where
  "times_half x y = narrow (widen x * widen y)"

instance ..

end

text \<open>
  Following the specification's words (half precision accumulates in single precision;
  the output is cast back to the element type on store): the aggregate of a kernel that
  would widen every operand, accumulate in the wider type and narrow the sum once. The
  wider type is exact on the integers involved and is modelled by the integers.
\<close>

definition extended_aggregate ::
  "half heap \<Rightarrow> nn1d_args \<Rightarrow> int \<Rightarrow> int \<Rightarrow> int \<Rightarrow> int \<Rightarrow> int list \<Rightarrow> half" where
  "extended_aggregate mem args b h i d ns =
     narrow (foldl (\<lambda>acc k. acc + widen (mem (weights args + attn_index args b h i (int k)))
                           * widen (mem (values' args + linearIndex args b h (ns ! k) d)))
               0 [0..<length ns])"

text \<open>
  A call on half-precision buffers: one window of three weights equal to 1 over the
  values 2048, 1, 1.
\<close>

definition rounding_args :: nn1d_args where
  "rounding_args =
     \<lparr>weights = 0, values' = 10, output' = 20, length' = 3, heads = 1, kernel_size = 3,
      dilation = 1, dim = 1, batch_size = 1, weights_stride_0 = 9, weights_stride_1 = 9,
      weights_stride_2 = 3, is_causal = False\<rparr>"

definition rounding_mem :: "half heap" where
  "rounding_mem = (\<lambda>a. if a = 10 then Half 2048 else Half 1)"

subsection \<open>A call on which the counter overflows\<close>

text \<open>
  Length 2, kernel size 1 and a dilation of \<open>2\<^sup>3\<^sup>1 - 1\<close>: the input is validated and
  the window of a query position is the position itself.
\<close>

definition big_args :: nn1d_args where
  "big_args =
     \<lparr>weights = 0, values' = 10, output' = 20, length' = 2, heads = 1, kernel_size = 1,
      dilation = 2147483647, dim = 1, batch_size = 1, weights_stride_0 = 2,
      weights_stride_1 = 2, weights_stride_2 = 1, is_causal = False\<rparr>"

section \<open>The kernel as a program of memory accesses\<close>

text \<open>
  The same kernel, written as the sequence of its memory accesses. An access names one
  of the three buffers and an index into it, as \<^verbatim>\<open>weights[attnOffset]\<close>,
  \<^verbatim>\<open>values[valuesIndex]\<close> and \<^verbatim>\<open>output[linearIndex]\<close> do. A program is finished, or
  has undefined behaviour, or loads an element and goes on with the value loaded, or
  stores an element and goes on.
\<close>

datatype buffer = Weights | Values | Output

datatype access = Read buffer int | Write buffer int

datatype 'a prog =
    Done
  | Undefined
  | Load buffer int "'a \<Rightarrow> 'a prog"
  | Store buffer int 'a "'a prog"

definition base :: "nn1d_args \<Rightarrow> buffer \<Rightarrow> int" where
  "base args buf = (case buf of Weights \<Rightarrow> weights args | Values \<Rightarrow> values' args
                    | Output \<Rightarrow> output' args)"

text \<open>
  The loop over \<open>xi\<close> (lines 129 to 133); \<open>rest\<close> is what follows the loop, given the
  accumulated \<open>output_update\<close>.
\<close>

function xi_prog ::
  "nn1d_args \<Rightarrow> int \<Rightarrow> int \<Rightarrow> int \<Rightarrow> int \<Rightarrow> ('a::{zero,plus,times})
     \<Rightarrow> ('a \<Rightarrow> 'a prog) \<Rightarrow> 'a prog" where
  "xi_prog args valuesOffset ei xi attnOffset output_update rest =
     (if xi < ei then
        Load Weights attnOffset (\<lambda>w.
        Load Values (valuesOffset + xi * values_stride_2 args) (\<lambda>v.
          if dilation args \<le> 0 \<or> INT32_MAX < xi + dilation args then Undefined
          else xi_prog args valuesOffset ei (xi + dilation args) (attnOffset + 1)
                 (output_update + w * v) rest))
      else rest output_update)"
  by pat_completeness auto
termination
  by (relation "measure (\<lambda>(args, valuesOffset, ei, xi, attnOffset, output_update, rest). nat (ei - xi))")
     auto

declare xi_prog.simps [simp del]

text \<open>The body of the loop over \<open>d\<close> (lines 124 to 136), followed by \<open>rest\<close>.\<close>

definition d_prog ::
  "nn1d_args \<Rightarrow> int \<Rightarrow> int \<Rightarrow> int \<Rightarrow> int \<Rightarrow> int \<Rightarrow> int
     \<Rightarrow> ('a::{zero,plus,times}) prog \<Rightarrow> 'a prog" where
  "d_prog args ni ei b h i d rest =
     xi_prog args (b * values_stride_0 args + h * values_stride_1 args + d) ei ni
       (b * weights_stride_0 args + h * weights_stride_1 args + i * weights_stride_2 args) 0
       (\<lambda>output_update.
          Store Output
            (b * values_stride_0 args + h * values_stride_1 args + i * values_stride_2 args + d)
            output_update rest)"

text \<open>\<^verbatim>\<open>for (int32_t k = lo; k < hi; k++) body\<close>, followed by \<open>rest\<close>.\<close>

function for_prog :: "int \<Rightarrow> int \<Rightarrow> (int \<Rightarrow> 'p \<Rightarrow> 'p) \<Rightarrow> 'p \<Rightarrow> 'p" where
  "for_prog lo hi body rest =
     (if lo < hi then body lo (for_prog (lo + 1) hi body rest) else rest)"
  by pat_completeness auto
termination
  by (relation "measure (\<lambda>(lo, hi, body, rest). nat (hi - lo))") auto

declare for_prog.simps [simp del]

definition i_prog ::
  "window_start_fn \<Rightarrow> window_end_fn \<Rightarrow> nn1d_args \<Rightarrow> int \<Rightarrow> int \<Rightarrow> int
     \<Rightarrow> ('a::{zero,plus,times}) prog \<Rightarrow> 'a prog" where
  "i_prog gws gwe args b h i rest =
     (let ni = gws i (length' args) (kernel_size args) (neighborhood_size args)
                 (dilation args) (is_causal args);
          ei = gwe i ni (length' args) (kernel_size args) (neighborhood_size args)
                 (dilation args) (is_causal args)
      in for_prog 0 (dim args) (d_prog args ni ei b h i) rest)"

text \<open>The task of one chunk of heads (lines 106 to 139).\<close>

definition task_prog ::
  "window_start_fn \<Rightarrow> window_end_fn \<Rightarrow> nn1d_args \<Rightarrow> int \<Rightarrow> int \<Rightarrow> int
     \<Rightarrow> ('a::{zero,plus,times}) prog" where
  "task_prog gws gwe args b start end' =
     for_prog start end'
       (\<lambda>h. for_prog 0 (length' args) (i_prog gws gwe args b h)) Done"

text \<open>
  A program run on its own: the accesses are carried out in order on the memory, and
  recorded.
\<close>

primrec exec ::
  "nn1d_args \<Rightarrow> 'a prog \<Rightarrow> 'a heap \<times> access list \<Rightarrow> ('a heap \<times> access list) option" where
  "exec args Done s = Some s"
| "exec args Undefined s = None"
| "exec args (Load buf idx f) s =
     exec args (f (fst s (base args buf + idx))) (fst s, snd s @ [Read buf idx])"
| "exec args (Store buf idx v p) s =
     exec args p ((fst s)(base args buf + idx := v), snd s @ [Write buf idx])"

text \<open>\<^verbatim>\<open>launch\<close> with every task run as a program, and the accesses recorded.\<close>

definition launch_traced ::
  "(int \<Rightarrow> scheduler) \<Rightarrow> window_start_fn \<Rightarrow> window_end_fn \<Rightarrow> nn1d_args
     \<Rightarrow> ('a::{zero,plus,times}) heap \<times> access list \<Rightarrow> ('a heap \<times> access list) option" where
  "launch_traced sched gws gwe args s =
     for_range 0 (batch_size args)
       (\<lambda>b. parallel_for (sched b) 0 (heads args) GRAIN_SIZE
              (\<lambda>start end'. exec args (task_prog gws gwe args b start end'))) s"

subsection \<open>The accesses of a call\<close>

text \<open>
  The accesses of the loop over \<open>xi\<close>, of one output element, of one head and of a
  whole call, in the order in which they are made.
\<close>

fun xi_log :: "nn1d_args \<Rightarrow> int \<Rightarrow> int \<Rightarrow> int list \<Rightarrow> access list" where
  "xi_log args valuesOffset attnOffset [] = []"
| "xi_log args valuesOffset attnOffset (xi # ns) =
     Read Weights attnOffset # Read Values (valuesOffset + xi * values_stride_2 args)
       # xi_log args valuesOffset (attnOffset + 1) ns"

definition cell_log ::
  "window_start_fn \<Rightarrow> window_end_fn \<Rightarrow> nn1d_args \<Rightarrow> int \<Rightarrow> int \<Rightarrow> int \<Rightarrow> int \<Rightarrow> access list" where
  "cell_log gws gwe args b h i d =
     xi_log args (b * values_stride_0 args + h * values_stride_1 args + d)
       (b * weights_stride_0 args + h * weights_stride_1 args + i * weights_stride_2 args)
       (window gws gwe args i)
     @ [Write Output (linearIndex args b h i d)]"

definition head_log ::
  "window_start_fn \<Rightarrow> window_end_fn \<Rightarrow> nn1d_args \<Rightarrow> int \<Rightarrow> int \<Rightarrow> access list" where
  "head_log gws gwe args b h =
     concat (map (\<lambda>i. concat (map (cell_log gws gwe args b h i) [0..dim args - 1]))
               [0..length' args - 1])"

definition launch_log ::
  "(int \<Rightarrow> scheduler) \<Rightarrow> window_start_fn \<Rightarrow> window_end_fn \<Rightarrow> nn1d_args \<Rightarrow> access list" where
  "launch_log sched gws gwe args =
     concat (map (\<lambda>b. if heads args \<le> 0 then []
                       else concat (map (head_log gws gwe args b)
                              (heads_of (sched b 0 (heads args) GRAIN_SIZE))))
               [0..batch_size args - 1])"

text \<open>The stores among the accesses, and the stores of one head.\<close>

fun writes_of :: "access list \<Rightarrow> (buffer \<times> int) list" where
  "writes_of [] = []"
| "writes_of (Read buf idx # l) = writes_of l"
| "writes_of (Write buf idx # l) = (buf, idx) # writes_of l"

definition head_writes :: "nn1d_args \<Rightarrow> int \<Rightarrow> int \<Rightarrow> (buffer \<times> int) list" where
  "head_writes args b h =
     concat (map (\<lambda>i. map (\<lambda>d. (Output, linearIndex args b h i d)) [0..dim args - 1])
               [0..length' args - 1])"

section \<open>The tasks of a call run concurrently\<close>

text \<open>
  \<^verbatim>\<open>at::parallel_for\<close> hands the chunks of the head range to threads: the tasks of one
  batch element run at the same time, and \<^verbatim>\<open>at::parallel_for\<close> returns once all of them
  have finished. A configuration of a call is either between two parallel regions, about
  to start the region of batch element \<open>b\<close> (or to return, when \<open>b\<close> has reached the
  batch size), or inside the region of \<open>b\<close>, with what is left of every task. A step
  starts the region, or lets one task make its next load or store on the shared memory,
  or ends the region when every task is finished. A task whose behaviour is undefined
  makes no step, and a region with such a task never ends.
\<close>

datatype event = Fork | Task nat access | Join

datatype 'a config =
    Serial int "'a heap"
  | Parallel int "'a prog list" "'a heap"

text \<open>The tasks of batch element \<open>b\<close>, one for each chunk the scheduler returns.\<close>

definition tasks ::
  "(int \<Rightarrow> scheduler) \<Rightarrow> window_start_fn \<Rightarrow> window_end_fn \<Rightarrow> nn1d_args \<Rightarrow> int
     \<Rightarrow> ('a::{zero,plus,times}) prog list" where
  "tasks sched gws gwe args b =
     (if heads args \<le> 0 then []
      else map (\<lambda>(start, end'). task_prog gws gwe args b start end')
             (sched b 0 (heads args) GRAIN_SIZE))"

inductive launch_step ::
  "(int \<Rightarrow> scheduler) \<Rightarrow> window_start_fn \<Rightarrow> window_end_fn \<Rightarrow> nn1d_args
     \<Rightarrow> ('a::{zero,plus,times}) config \<Rightarrow> event \<Rightarrow> 'a config \<Rightarrow> bool"
  for sched gws gwe args where
  fork: "b < batch_size args
     \<Longrightarrow> launch_step sched gws gwe args (Serial b m) Fork
           (Parallel b (tasks sched gws gwe args b) m)"
| load: "j < length ps \<Longrightarrow> ps ! j = Load buf idx f
     \<Longrightarrow> launch_step sched gws gwe args (Parallel b ps m) (Task j (Read buf idx))
           (Parallel b (ps[j := f (m (base args buf + idx))]) m)"
| store: "j < length ps \<Longrightarrow> ps ! j = Store buf idx v p
     \<Longrightarrow> launch_step sched gws gwe args (Parallel b ps m) (Task j (Write buf idx))
           (Parallel b (ps[j := p]) (m(base args buf + idx := v)))"
| join: "\<forall>p\<in>set ps. p = Done
     \<Longrightarrow> launch_step sched gws gwe args (Parallel b ps m) Join (Serial (b + 1) m)"

text \<open>A run: the steps made from a configuration, with their events in order.\<close>

inductive launch_run ::
  "(int \<Rightarrow> scheduler) \<Rightarrow> window_start_fn \<Rightarrow> window_end_fn \<Rightarrow> nn1d_args
     \<Rightarrow> ('a::{zero,plus,times}) config \<Rightarrow> event list \<Rightarrow> 'a config \<Rightarrow> bool"
  for sched gws gwe args where
  start: "launch_run sched gws gwe args c [] c"
| step: "launch_run sched gws gwe args c tr c1 \<Longrightarrow> launch_step sched gws gwe args c1 e c2
     \<Longrightarrow> launch_run sched gws gwe args c (tr @ [e]) c2"

text \<open>The call has returned when the loop over \<open>b\<close> is over.\<close>

fun returned :: "nn1d_args \<Rightarrow> 'a config \<Rightarrow> bool" where
  "returned args (Serial b m) \<longleftrightarrow> batch_size args \<le> b"
| "returned args (Parallel b ps m) \<longleftrightarrow> False"

fun heap_of :: "'a config \<Rightarrow> 'a heap" where
  "heap_of (Serial b m) = m"
| "heap_of (Parallel b ps m) = m"

text \<open>The addresses stored to in a run, in the order of the stores.\<close>

fun event_store :: "nn1d_args \<Rightarrow> event \<Rightarrow> int list" where
  "event_store args (Task j (Write buf idx)) = [base args buf + idx]"
| "event_store args (Task j (Read buf idx)) = []"
| "event_store args Fork = []"
| "event_store args Join = []"

definition stored :: "nn1d_args \<Rightarrow> event list \<Rightarrow> int list" where
  "stored args tr = concat (map (event_store args) tr)"

text \<open>
  A data race: two tasks whose next accesses are to the same address, one of them a
  store.
\<close>

fun next_access :: "nn1d_args \<Rightarrow> 'a prog \<Rightarrow> (bool \<times> int) option" where
  "next_access args (Load buf idx f) = Some (False, base args buf + idx)"
| "next_access args (Store buf idx v p) = Some (True, base args buf + idx)"
| "next_access args Done = None"
| "next_access args Undefined = None"

definition race :: "nn1d_args \<Rightarrow> 'a prog list \<Rightarrow> bool" where
  "race args ps \<longleftrightarrow>
     (\<exists>j<length ps. \<exists>k<length ps. j \<noteq> k
        \<and> (\<exists>a w. next_access args (ps ! j) = Some (True, a)
                \<and> next_access args (ps ! k) = Some (w, a)))"

fun racy :: "nn1d_args \<Rightarrow> 'a config \<Rightarrow> bool" where
  "racy args (Serial b m) \<longleftrightarrow> False"
| "racy args (Parallel b ps m) \<longleftrightarrow> race args ps"

subsection \<open>What a task has left to do\<close>

text \<open>
  The stores a program makes when every load returns what the heap \<open>m0\<close> holds, provided
  it loads nothing from the region \<open>R\<close> and its behaviour is defined; and the number of
  steps it makes then.
\<close>

primrec stores_along ::
  "nn1d_args \<Rightarrow> int set \<Rightarrow> 'a heap \<Rightarrow> 'a prog \<Rightarrow> (int \<times> 'a) list option" where
  "stores_along args R m0 Done = Some []"
| "stores_along args R m0 Undefined = None"
| "stores_along args R m0 (Load buf idx f) =
     (if base args buf + idx \<in> R then None
      else stores_along args R m0 (f (m0 (base args buf + idx))))"
| "stores_along args R m0 (Store buf idx v p) =
     map_option (Cons (base args buf + idx, v)) (stores_along args R m0 p)"

primrec steps_left :: "nn1d_args \<Rightarrow> 'a heap \<Rightarrow> 'a prog \<Rightarrow> nat" where
  "steps_left args m0 Done = 0"
| "steps_left args m0 Undefined = 0"
| "steps_left args m0 (Load buf idx f) = Suc (steps_left args m0 (f (m0 (base args buf + idx))))"
| "steps_left args m0 (Store buf idx v p) = Suc (steps_left args m0 p)"

definition total_left :: "nn1d_args \<Rightarrow> 'a heap \<Rightarrow> 'a prog list \<Rightarrow> nat" where
  "total_left args m0 ps = sum_list (map (steps_left args m0) ps)"

definition pending_of :: "nn1d_args \<Rightarrow> int set \<Rightarrow> 'a heap \<Rightarrow> 'a prog \<Rightarrow> int list" where
  "pending_of args R m0 p =
     (case stores_along args R m0 p of None \<Rightarrow> [] | Some sts \<Rightarrow> map fst sts)"

definition pending :: "nn1d_args \<Rightarrow> int set \<Rightarrow> 'a heap \<Rightarrow> 'a prog list \<Rightarrow> int list" where
  "pending args R m0 ps = concat (map (pending_of args R m0) ps)"

text \<open>
  The invariant of a parallel region that is to write \<open>T\<close> over \<open>W\<close>: outside \<open>R\<close> the
  memory is still \<open>m0\<close>; every task has only stores of \<open>T\<close> into \<open>W\<close> left; an address of
  \<open>W\<close> holds \<open>T\<close> already or some task has a store to it left; and outside \<open>W\<close> the memory is
  as it was when the region started.
\<close>

definition on_track ::
  "nn1d_args \<Rightarrow> int set \<Rightarrow> 'a heap \<Rightarrow> (int \<Rightarrow> 'a) \<Rightarrow> int set \<Rightarrow> 'a heap
     \<Rightarrow> 'a prog list \<Rightarrow> 'a heap \<Rightarrow> bool" where
  "on_track args R m0 T W minit ps m \<longleftrightarrow>
     (\<forall>a. a \<notin> R \<longrightarrow> m a = m0 a)
   \<and> (\<forall>j<length ps. \<exists>sts. stores_along args R m0 (ps ! j) = Some sts
          \<and> (\<forall>x\<in>set sts. fst x \<in> W \<and> snd x = T (fst x)))
   \<and> (\<forall>a\<in>W. m a = T a
          \<or> (\<exists>j<length ps. \<exists>sts. stores_along args R m0 (ps ! j) = Some sts
                \<and> a \<in> fst ` set sts))
   \<and> (\<forall>a. a \<notin> W \<longrightarrow> m a = minit a)"

text \<open>The stores of one head, with the values stored, and the stores of one batch element.\<close>

definition head_stores ::
  "window_start_fn \<Rightarrow> window_end_fn \<Rightarrow> nn1d_args \<Rightarrow> ('a::{zero,plus,times}) heap
     \<Rightarrow> int \<Rightarrow> int \<Rightarrow> (int \<times> 'a) list" where
  "head_stores gws gwe args m0 b h =
     concat (map (\<lambda>i. map (\<lambda>d. (output' args + linearIndex args b h i d,
                                 aggregate m0 args b h i d (window gws gwe args i)))
                       [0..dim args - 1])
               [0..length' args - 1])"

definition addr :: "nn1d_args \<Rightarrow> buffer \<times> int \<Rightarrow> int" where
  "addr args x = base args (fst x) + snd x"

definition batch_writes :: "(int \<Rightarrow> scheduler) \<Rightarrow> nn1d_args \<Rightarrow> int \<Rightarrow> (buffer \<times> int) list" where
  "batch_writes sched args b =
     concat (map (head_writes args b) (heads_of (sched b 0 (heads args) GRAIN_SIZE)))"

text \<open>
  The memory when the region of batch element \<open>b\<close> starts, and the addresses stored to
  by then.
\<close>

definition pre ::
  "window_start_fn \<Rightarrow> window_end_fn \<Rightarrow> nn1d_args \<Rightarrow> ('a::{zero,plus,times}) heap \<Rightarrow> int
     \<Rightarrow> 'a heap" where
  "pre gws gwe args mem b =
     (\<lambda>a. if a \<in> (\<Union>b'\<in>{0..<b}. batch_cells args b') then expected gws gwe args mem a
          else mem a)"

definition cells_upto :: "(int \<Rightarrow> scheduler) \<Rightarrow> nn1d_args \<Rightarrow> int \<Rightarrow> int list" where
  "cells_upto sched args b = map (addr args) (concat (map (batch_writes sched args) [0..b - 1]))"

text \<open>The number of steps a call has left to make.\<close>

definition fuel_from ::
  "(int \<Rightarrow> scheduler) \<Rightarrow> window_start_fn \<Rightarrow> window_end_fn \<Rightarrow> nn1d_args
     \<Rightarrow> ('a::{zero,plus,times}) heap \<Rightarrow> int \<Rightarrow> nat" where
  "fuel_from sched gws gwe args mem b =
     sum_list (map (\<lambda>b'. 2 + total_left args mem (tasks sched gws gwe args b'))
                 [b..batch_size args - 1])"

fun fuel ::
  "(int \<Rightarrow> scheduler) \<Rightarrow> window_start_fn \<Rightarrow> window_end_fn \<Rightarrow> nn1d_args
     \<Rightarrow> ('a::{zero,plus,times}) heap \<Rightarrow> 'a config \<Rightarrow> nat" where
  "fuel sched gws gwe args mem (Serial b m) = fuel_from sched gws gwe args mem b"
| "fuel sched gws gwe args mem (Parallel b ps m) =
     1 + total_left args mem ps + fuel_from sched gws gwe args mem (b + 1)"

text \<open>The invariant of a call started on the heap \<open>mem\<close>, after the events \<open>tr\<close>.\<close>

fun on_course ::
  "(int \<Rightarrow> scheduler) \<Rightarrow> window_start_fn \<Rightarrow> window_end_fn \<Rightarrow> nn1d_args
     \<Rightarrow> ('a::{zero,plus,times}) heap \<Rightarrow> event list \<Rightarrow> 'a config \<Rightarrow> bool" where
  "on_course sched gws gwe args mem tr (Serial b m) \<longleftrightarrow>
     0 \<le> b \<and> b \<le> batch_size args \<and> m = pre gws gwe args mem b
   \<and> distinct (stored args tr) \<and> set (stored args tr) = set (cells_upto sched args b)"
| "on_course sched gws gwe args mem tr (Parallel b ps m) \<longleftrightarrow>
     0 \<le> b \<and> b < batch_size args
   \<and> on_track args (out_region args) mem (expected gws gwe args mem) (batch_cells args b)
        (pre gws gwe args mem b) ps m
   \<and> distinct (stored args tr @ pending args (out_region args) mem ps)
   \<and> set (stored args tr @ pending args (out_region args) mem ps)
       = set (cells_upto sched args (b + 1))"

section \<open>Proofs\<close>

lemma neighbors_Cons:
  "start < end' \<Longrightarrow> 0 < D \<Longrightarrow> neighbors start end' D = start # neighbors (start + D) end' D"
  by (subst neighbors.simps) simp

lemma neighbors_Nil: "\<not> (start < end' \<and> 0 < D) \<Longrightarrow> neighbors start end' D = []"
  by (subst neighbors.simps) simp

lemma foldl_upt_Suc_shift:
  "foldl f a [0..<Suc n] = foldl (\<lambda>acc k. f acc (Suc k)) (f a 0) [0..<n]"
proof -
  have "[0..<Suc n] = 0 # map Suc [0..<n]"
    by (simp add: upt_conv_Cons map_Suc_upt del: upt_Suc)
  then show ?thesis
    by (simp add: foldl_map del: upt_Suc)
qed

lemma xi_loop_foldl:
  fixes mem :: "('a::{zero,plus,times}) heap"
  assumes "0 < dilation args"
    and "\<forall>x\<in>set (neighbors xi ei (dilation args)). x + dilation args \<le> INT32_MAX"
  shows "xi_loop mem args vo ei xi ao acc =
     Some (foldl (\<lambda>acc k. acc + mem (weights args + (ao + int k))
                * mem (values' args + (vo + (neighbors xi ei (dilation args) ! k) * values_stride_2 args)))
            acc [0..<length (neighbors xi ei (dilation args))])"
  using assms
proof (induction mem args vo ei xi ao acc rule: xi_loop.induct)
  case (1 mem args vo ei xi ao acc)
  show ?case
  proof (cases "xi < ei")
    case False
    then show ?thesis
      by (subst xi_loop.simps) (simp add: neighbors_Nil)
  next
    case True
    have ns: "neighbors xi ei (dilation args) = xi # neighbors (xi + dilation args) ei (dilation args)"
      using True "1.prems"(1) by (rule neighbors_Cons)
    have fit: "xi + dilation args \<le> INT32_MAX"
      using "1.prems"(2) ns by simp
    have rest: "\<forall>x\<in>set (neighbors (xi + dilation args) ei (dilation args)). x + dilation args \<le> INT32_MAX"
      using "1.prems"(2) ns by simp
    have step: "xi_loop mem args vo ei xi ao acc =
        xi_loop mem args vo ei (xi + dilation args) (ao + 1)
          (acc + mem (weights args + ao) * mem (values' args + (vo + xi * values_stride_2 args)))"
      using True fit "1.prems"(1) by (subst xi_loop.simps) (simp add: Let_def)
    have ih: "xi_loop mem args vo ei (xi + dilation args) (ao + 1)
          (acc + mem (weights args + ao) * mem (values' args + (vo + xi * values_stride_2 args))) =
       Some (foldl (\<lambda>acc k. acc + mem (weights args + (ao + 1 + int k))
                * mem (values' args + (vo + (neighbors (xi + dilation args) ei (dilation args) ! k) * values_stride_2 args)))
            (acc + mem (weights args + ao) * mem (values' args + (vo + xi * values_stride_2 args)))
            [0..<length (neighbors (xi + dilation args) ei (dilation args))])"
      using True fit "1.prems"(1) rest
      by (intro "1.IH"[OF True refl refl refl]) auto
    show ?thesis
      unfolding step ih ns
      by (simp add: foldl_upt_Suc_shift ac_simps del: upt_Suc)
  qed
qed

lemma fillsI:
  "(\<And>m. (\<forall>a. a \<notin> R \<longrightarrow> m a = m0 a) \<Longrightarrow> f m = Some (\<lambda>a. if a \<in> W then T a else m a))
     \<Longrightarrow> fills R m0 T W f"
  by (simp add: fills_def)

lemma fillsD:
  "fills R m0 T W f \<Longrightarrow> (\<forall>a. a \<notin> R \<longrightarrow> m a = m0 a)
     \<Longrightarrow> f m = Some (\<lambda>a. if a \<in> W then T a else m a)"
  by (simp add: fills_def)

lemma fills_for_range:
  assumes "\<And>k. lo \<le> k \<Longrightarrow> k < hi \<Longrightarrow> fills R m0 T (W k) (body k)"
    and "\<And>k. lo \<le> k \<Longrightarrow> k < hi \<Longrightarrow> W k \<subseteq> R"
  shows "fills R m0 T (\<Union>k\<in>{lo..<hi}. W k) (for_range lo hi body)"
  using assms
proof (induction "nat (hi - lo)" arbitrary: lo)
  case 0
  then have "\<not> lo < hi" by simp
  then show ?case
    by (intro fillsI) (subst for_range.simps, simp)
next
  case (Suc n)
  then have lt: "lo < hi" by linarith
  have n: "n = nat (hi - (lo + 1))" using Suc.hyps(2) by linarith
  have rest: "fills R m0 T (\<Union>k\<in>{lo + 1..<hi}. W k) (for_range (lo + 1) hi body)"
    using Suc.prems by (intro Suc.hyps(1)[OF n]) auto
  have first: "fills R m0 T (W lo) (body lo)" using Suc.prems(1) lt by simp
  have sub: "W lo \<subseteq> R" using Suc.prems(2) lt by simp
  have split: "{lo..<hi} = insert lo {lo + 1..<hi}" using lt by auto
  show ?case
  proof (rule fillsI)
    fix m :: "'a heap"
    assume agree: "\<forall>a. a \<notin> R \<longrightarrow> m a = m0 a"
    let ?m1 = "\<lambda>a. if a \<in> W lo then T a else m a"
    have b1: "body lo m = Some ?m1" using fillsD[OF first agree] .
    have agree1: "\<forall>a. a \<notin> R \<longrightarrow> ?m1 a = m0 a" using agree sub by auto
    have b2: "for_range (lo + 1) hi body ?m1 =
        Some (\<lambda>a. if a \<in> (\<Union>k\<in>{lo + 1..<hi}. W k) then T a else ?m1 a)"
      using fillsD[OF rest agree1] .
    have "for_range lo hi body m = for_range (lo + 1) hi body ?m1"
      using lt b1 by (subst for_range.simps) simp
    also have "\<dots> = Some (\<lambda>a. if a \<in> (\<Union>k\<in>{lo..<hi}. W k) then T a else m a)"
      unfolding b2 split by (auto simp: fun_eq_iff)
    finally show "for_range lo hi body m = Some (\<lambda>a. if a \<in> (\<Union>k\<in>{lo..<hi}. W k) then T a else m a)" .
  qed
qed

lemma fills_run_chunks:
  assumes "\<And>s e. (s, e) \<in> set cs \<Longrightarrow> fills R m0 T (W s e) (f s e)"
    and "\<And>s e. (s, e) \<in> set cs \<Longrightarrow> W s e \<subseteq> R"
  shows "fills R m0 T (\<Union>(s, e)\<in>set cs. W s e) (run_chunks cs f)"
  using assms
proof (induction cs)
  case Nil
  show ?case by (rule fillsI) simp
next
  case (Cons c cs)
  obtain s e where c: "c = (s, e)" by (cases c)
  have rest: "fills R m0 T (\<Union>(s, e)\<in>set cs. W s e) (run_chunks cs f)"
    using Cons.prems by (intro Cons.IH) auto
  have first: "fills R m0 T (W s e) (f s e)" using Cons.prems(1) c by simp
  have sub: "W s e \<subseteq> R" using Cons.prems(2) c by simp
  show ?case
  proof (rule fillsI)
    fix m :: "'a heap"
    assume agree: "\<forall>a. a \<notin> R \<longrightarrow> m a = m0 a"
    let ?m1 = "\<lambda>a. if a \<in> W s e then T a else m a"
    have b1: "f s e m = Some ?m1" using fillsD[OF first agree] .
    have agree1: "\<forall>a. a \<notin> R \<longrightarrow> ?m1 a = m0 a" using agree sub by auto
    have b2: "run_chunks cs f ?m1 =
        Some (\<lambda>a. if a \<in> (\<Union>(s, e)\<in>set cs. W s e) then T a else ?m1 a)"
      using fillsD[OF rest agree1] .
    have "run_chunks (c # cs) f m = run_chunks cs f ?m1"
      using b1 c by simp
    also have "\<dots> = Some (\<lambda>a. if a \<in> (\<Union>(s, e)\<in>set (c # cs). W s e) then T a else m a)"
      unfolding b2 c by (auto simp: fun_eq_iff)
    finally show "run_chunks (c # cs) f m =
        Some (\<lambda>a. if a \<in> (\<Union>(s, e)\<in>set (c # cs). W s e) then T a else m a)" .
  qed
qed

lemma linearIndex_nested:
  "linearIndex args b h i d =
     ((b * heads args + h) * length' args + i) * dim args + d"
  by (simp add: linearIndex_def values_stride_0_def values_stride_1_def values_stride_2_def
      algebra_simps)

lemma digit_div: "0 \<le> y \<Longrightarrow> y < n \<Longrightarrow> (x * n + y) div n = (x::int)"
  by (simp add: div_pos_pos_trivial)

lemma digit_mod: "0 \<le> y \<Longrightarrow> y < n \<Longrightarrow> (x * n + y) mod n = (y::int)"
  by (simp add: mod_pos_pos_trivial)

lemma digit_bound:
  assumes "0 \<le> x" "x < X" "0 \<le> y" "y < n"
  shows "0 \<le> x * n + y \<and> x * n + y < X * (n::int)"
proof -
  have n: "0 < n" using assms by linarith
  have "(x + 1) * n \<le> X * n"
    using assms n by (intro mult_right_mono) auto
  moreover have "x * n + y < (x + 1) * n" using assms by (simp add: algebra_simps)
  moreover have "0 \<le> x * n" using assms n by simp
  ultimately show ?thesis using assms by linarith
qed

lemma cell_of_linearIndex:
  assumes "0 \<le> h" "h < heads args" "0 \<le> i" "i < length' args" "0 \<le> d" "d < dim args"
  shows "cell_of args (linearIndex args b h i d) = (b, h, i, d)"
  using assms
  by (simp add: cell_of_def linearIndex_nested digit_div digit_mod Let_def)

lemma linearIndex_bound:
  assumes "0 \<le> b" "b < batch_size args" "0 \<le> h" "h < heads args"
    "0 \<le> i" "i < length' args" "0 \<le> d" "d < dim args"
  shows "0 \<le> linearIndex args b h i d \<and> linearIndex args b h i d < numel args"
proof -
  have 1: "0 \<le> b * heads args + h \<and> b * heads args + h < batch_size args * heads args"
    using assms by (intro digit_bound) auto
  have 2: "0 \<le> (b * heads args + h) * length' args + i
      \<and> (b * heads args + h) * length' args + i < (batch_size args * heads args) * length' args"
    using assms 1 by (intro digit_bound) auto
  have 3: "0 \<le> ((b * heads args + h) * length' args + i) * dim args + d
      \<and> ((b * heads args + h) * length' args + i) * dim args + d
          < ((batch_size args * heads args) * length' args) * dim args"
    using assms 2 by (intro digit_bound) auto
  show ?thesis using 3 by (simp add: linearIndex_nested numel_def)
qed

lemma div_digit_bound:
  assumes "0 \<le> (q::int)" "q < X * n" "0 < n"
  shows "0 \<le> q div n \<and> q div n < X"
proof -
  have "0 \<le> q div n" using assms by (simp add: pos_imp_zdiv_nonneg_iff)
  moreover have "q div n < X"
  proof (rule ccontr)
    assume "\<not> q div n < X"
    then have "X \<le> q div n" by simp
    then have "X * n \<le> (q div n) * n" using assms(3) by (intro mult_right_mono) auto
    moreover have "q div n * n + q mod n = q" by simp
    moreover have "0 \<le> q mod n" using assms(3) by simp
    ultimately show False using assms(2) by linarith
  qed
  ultimately show ?thesis by simp
qed

lemma cell_of_ranges:
  assumes "0 < heads args" "0 < length' args" "0 < dim args"
    and "0 \<le> idx" "idx < numel args"
  shows "case cell_of args idx of (b, h, i, d) \<Rightarrow>
     0 \<le> b \<and> b < batch_size args \<and> 0 \<le> h \<and> h < heads args \<and> 0 \<le> i \<and> i < length' args
     \<and> 0 \<le> d \<and> d < dim args \<and> linearIndex args b h i d = idx"
proof -
  let ?q1 = "idx div dim args"
  let ?q2 = "?q1 div length' args"
  have q1: "0 \<le> ?q1 \<and> ?q1 < batch_size args * heads args * length' args"
    using assms by (intro div_digit_bound) (auto simp: numel_def)
  have q2: "0 \<le> ?q2 \<and> ?q2 < batch_size args * heads args"
    using assms q1 by (intro div_digit_bound) auto
  have b: "0 \<le> ?q2 div heads args \<and> ?q2 div heads args < batch_size args"
    using assms q2 by (intro div_digit_bound) auto
  have recompose: "(((?q2 div heads args) * heads args + ?q2 mod heads args) * length' args
      + ?q1 mod length' args) * dim args + idx mod dim args = idx"
    by simp
  show ?thesis
    using assms b recompose
    by (simp add: cell_of_def Let_def linearIndex_nested)
qed

lemma out_region_cells:
  assumes "0 < heads args" "0 < length' args" "0 < dim args"
  shows "(\<Union>b\<in>{0..<batch_size args}. \<Union>h\<in>{0..<heads args}. \<Union>i\<in>{0..<length' args}.
           \<Union>d\<in>{0..<dim args}. {output' args + linearIndex args b h i d}) = out_region args"
proof (intro set_eqI iffI)
  fix a
  assume "a \<in> (\<Union>b\<in>{0..<batch_size args}. \<Union>h\<in>{0..<heads args}. \<Union>i\<in>{0..<length' args}.
           \<Union>d\<in>{0..<dim args}. {output' args + linearIndex args b h i d})"
  then obtain b h i d where r: "0 \<le> b" "b < batch_size args" "0 \<le> h" "h < heads args"
    "0 \<le> i" "i < length' args" "0 \<le> d" "d < dim args"
    and a: "a = output' args + linearIndex args b h i d"
    by auto
  show "a \<in> out_region args"
    using linearIndex_bound[OF r] a by (simp add: out_region_def)
next
  fix a
  assume "a \<in> out_region args"
  then have idx: "0 \<le> a - output' args" "a - output' args < numel args"
    by (auto simp: out_region_def)
  obtain b h i d where c: "cell_of args (a - output' args) = (b, h, i, d)"
    by (cases "cell_of args (a - output' args)") auto
  have "0 \<le> b \<and> b < batch_size args \<and> 0 \<le> h \<and> h < heads args \<and> 0 \<le> i \<and> i < length' args
     \<and> 0 \<le> d \<and> d < dim args \<and> linearIndex args b h i d = a - output' args"
    using cell_of_ranges[OF assms idx] c by simp
  then have "b \<in> {0..<batch_size args}" "h \<in> {0..<heads args}" "i \<in> {0..<length' args}"
    "d \<in> {0..<dim args}" "a \<in> {output' args + linearIndex args b h i d}"
    by auto
  then show "a \<in> (\<Union>b\<in>{0..<batch_size args}. \<Union>h\<in>{0..<heads args}. \<Union>i\<in>{0..<length' args}.
           \<Union>d\<in>{0..<dim args}. {output' args + linearIndex args b h i d})"
    by blast
qed

lemma aggregate_cong:
  fixes m m0 :: "('a::{zero,plus,times}) heap"
  assumes "\<forall>a\<in>set (reads gws gwe args b h i d). m a = m0 a"
  shows "aggregate m args b h i d (window gws gwe args i)
       = aggregate m0 args b h i d (window gws gwe args i)"
  unfolding aggregate_def
proof (rule foldl_cong[OF refl refl])
  fix acc :: 'a and k
  assume "k \<in> set [0..<length (window gws gwe args i)]"
  then have k: "k < length (window gws gwe args i)" by simp
  have "weights args + attn_index args b h i (int k) \<in> set (reads gws gwe args b h i d)"
    using k by (simp add: reads_def)
  moreover have "values' args + linearIndex args b h (window gws gwe args i ! k) d
      \<in> set (reads gws gwe args b h i d)"
    using k by (simp add: reads_def)
  ultimately show "acc + m (weights args + attn_index args b h i (int k))
        * m (values' args + linearIndex args b h (window gws gwe args i ! k) d)
      = acc + m0 (weights args + attn_index args b h i (int k))
        * m0 (values' args + linearIndex args b h (window gws gwe args i ! k) d)"
    using assms by simp
qed

lemma xi_loop_aggregate:
  fixes mem :: "('a::{zero,plus,times}) heap"
  assumes "0 < dilation args"
    and "\<forall>x\<in>set (window gws gwe args i). x + dilation args \<le> INT32_MAX"
  shows "xi_loop mem args (b * values_stride_0 args + h * values_stride_1 args + d)
           (window_end gws gwe args i) (window_start gws args i)
           (b * weights_stride_0 args + h * weights_stride_1 args + i * weights_stride_2 args) 0
         = Some (aggregate mem args b h i d (window gws gwe args i))"
proof -
  have "xi_loop mem args (b * values_stride_0 args + h * values_stride_1 args + d)
           (window_end gws gwe args i) (window_start gws args i)
           (b * weights_stride_0 args + h * weights_stride_1 args + i * weights_stride_2 args) 0
      = Some (foldl (\<lambda>acc k. acc + mem (weights args
                  + ((b * weights_stride_0 args + h * weights_stride_1 args + i * weights_stride_2 args) + int k))
                * mem (values' args + ((b * values_stride_0 args + h * values_stride_1 args + d)
                    + (neighbors (window_start gws args i) (window_end gws gwe args i) (dilation args) ! k)
                      * values_stride_2 args)))
            0 [0..<length (neighbors (window_start gws args i) (window_end gws gwe args i) (dilation args))])"
    using assms by (intro xi_loop_foldl) (auto simp: window_def)
  also have "\<dots> = Some (aggregate mem args b h i d (window gws gwe args i))"
    by (simp add: aggregate_def window_def attn_index_def linearIndex_def ac_simps)
  finally show ?thesis .
qed

lemma d_body_fills:
  fixes m0 :: "('a::{zero,plus,times}) heap"
  assumes dil: "0 < dilation args"
    and fits: "\<forall>x\<in>set (window gws gwe args i). x + dilation args \<le> INT32_MAX"
    and sep: "\<forall>a\<in>set (reads gws gwe args b h i d). a \<notin> out_region args"
    and rng: "0 \<le> h" "h < heads args" "0 \<le> i" "i < length' args" "0 \<le> d" "d < dim args"
  shows "fills (out_region args) m0 (expected gws gwe args m0)
           {output' args + linearIndex args b h i d}
           (d_body args (window_start gws args i) (window_end gws gwe args i) b h i d)"
proof (rule fillsI)
  fix m :: "'a heap"
  assume agree: "\<forall>a. a \<notin> out_region args \<longrightarrow> m a = m0 a"
  have same: "\<forall>a\<in>set (reads gws gwe args b h i d). m a = m0 a"
    using agree sep by simp
  have tgt: "expected gws gwe args m0 (output' args + linearIndex args b h i d)
      = aggregate m0 args b h i d (window gws gwe args i)"
    using cell_of_linearIndex[OF rng] by (simp add: expected_def)
  have "d_body args (window_start gws args i) (window_end gws gwe args i) b h i d m
      = Some (m(output' args + linearIndex args b h i d
                 := aggregate m args b h i d (window gws gwe args i)))"
    by (simp add: d_body_def Let_def xi_loop_aggregate[OF dil fits] linearIndex_def)
  also have "m(output' args + linearIndex args b h i d
                 := aggregate m args b h i d (window gws gwe args i))
      = (\<lambda>a. if a \<in> {output' args + linearIndex args b h i d}
              then expected gws gwe args m0 a else m a)"
    using tgt aggregate_cong[OF same] by (auto simp: fun_eq_iff)
  finally show "d_body args (window_start gws args i) (window_end gws gwe args i) b h i d m
      = Some (\<lambda>a. if a \<in> {output' args + linearIndex args b h i d}
              then expected gws gwe args m0 a else m a)" .
qed

lemma cell_in_region:
  assumes "0 \<le> b" "b < batch_size args" "0 \<le> h" "h < heads args"
    "0 \<le> i" "i < length' args" "0 \<le> d" "d < dim args"
  shows "output' args + linearIndex args b h i d \<in> out_region args"
  using linearIndex_bound[OF assms] by (simp add: out_region_def)

lemma row_cells_sub:
  assumes "0 \<le> b" "b < batch_size args" "0 \<le> h" "h < heads args" "0 \<le> i" "i < length' args"
  shows "row_cells args b h i \<subseteq> out_region args"
  using assms by (auto simp: row_cells_def intro: cell_in_region)

lemma head_cells_sub:
  assumes "0 \<le> b" "b < batch_size args" "0 \<le> h" "h < heads args"
  shows "head_cells args b h \<subseteq> out_region args"
  unfolding head_cells_def
proof (rule UN_least)
  fix i assume "i \<in> {0..<length' args}"
  then show "row_cells args b h i \<subseteq> out_region args"
    using row_cells_sub[OF assms] by simp
qed

lemma batch_cells_sub:
  assumes "0 \<le> b" "b < batch_size args"
  shows "batch_cells args b \<subseteq> out_region args"
  unfolding batch_cells_def
proof (rule UN_least)
  fix h assume "h \<in> {0..<heads args}"
  then show "head_cells args b h \<subseteq> out_region args"
    using head_cells_sub[OF assms] by simp
qed

lemma i_body_fills:
  fixes m0 :: "('a::{zero,plus,times}) heap"
  assumes dil: "0 < dilation args"
    and fits: "counter_fits gws gwe args"
    and sep: "no_alias gws gwe args"
    and rng: "0 \<le> b" "b < batch_size args" "0 \<le> h" "h < heads args" "0 \<le> i" "i < length' args"
  shows "fills (out_region args) m0 (expected gws gwe args m0) (row_cells args b h i)
           (i_body gws gwe args b h i)"
proof -
  have fits': "\<forall>x\<in>set (window gws gwe args i). x + dilation args \<le> INT32_MAX"
    using fits rng by (simp add: counter_fits_def)
  have main: "fills (out_region args) m0 (expected gws gwe args m0)
          (\<Union>d\<in>{0..<dim args}. {output' args + linearIndex args b h i d})
          (for_range 0 (dim args)
             (d_body args (window_start gws args i) (window_end gws gwe args i) b h i))"
  proof (rule fills_for_range)
    fix d assume d: "0 \<le> d" "d < dim args"
    have "\<forall>a\<in>set (reads gws gwe args b h i d). a \<notin> out_region args"
      using sep rng d by (simp add: no_alias_def)
    then show "fills (out_region args) m0 (expected gws gwe args m0)
        {output' args + linearIndex args b h i d}
        (d_body args (window_start gws args i) (window_end gws gwe args i) b h i d)"
      using dil fits' rng d by (intro d_body_fills) auto
    show "{output' args + linearIndex args b h i d} \<subseteq> out_region args"
      using cell_in_region[OF rng d] by simp
  qed
  have eq: "i_body gws gwe args b h i
      = for_range 0 (dim args)
          (d_body args (window_start gws args i) (window_end gws gwe args i) b h i)"
    by (rule ext) (simp add: i_body_def window_start_def window_end_def Let_def)
  show ?thesis
    unfolding eq row_cells_def using main .
qed

lemma task_eq:
  "task gws gwe args b start end'
     = for_range start end' (\<lambda>h. for_range 0 (length' args) (i_body gws gwe args b h))"
  by (rule ext) (simp add: task_def)

lemma task_fills:
  fixes m0 :: "('a::{zero,plus,times}) heap"
  assumes dil: "0 < dilation args"
    and fits: "counter_fits gws gwe args"
    and sep: "no_alias gws gwe args"
    and rng: "0 \<le> b" "b < batch_size args" "0 \<le> start" "end' \<le> heads args"
  shows "fills (out_region args) m0 (expected gws gwe args m0)
           (\<Union>h\<in>{start..<end'}. head_cells args b h) (task gws gwe args b start end')"
  unfolding task_eq
proof (rule fills_for_range)
  fix h assume h: "start \<le> h" "h < end'"
  then have h': "0 \<le> h" "h < heads args" using rng by auto
  show "head_cells args b h \<subseteq> out_region args"
    using head_cells_sub rng h' by simp
  show "fills (out_region args) m0 (expected gws gwe args m0) (head_cells args b h)
     (for_range 0 (length' args) (i_body gws gwe args b h))"
    unfolding head_cells_def
  proof (rule fills_for_range)
    fix i assume i: "0 \<le> i" "i < length' args"
    show "fills (out_region args) m0 (expected gws gwe args m0) (row_cells args b h i)
       (i_body gws gwe args b h i)"
      using dil fits sep rng h' i by (intro i_body_fills) auto
    show "row_cells args b h i \<subseteq> out_region args"
      using row_cells_sub rng h' i by simp
  qed
qed

lemma chunk_in_heads:
  assumes "(s, e) \<in> set chunks" "s \<le> h" "h < e"
  shows "h \<in> set (heads_of chunks)"
  using assms by (force simp: heads_of_def)

lemma heads_of_Union:
  "(\<Union>(s, e)\<in>set chunks. \<Union>h\<in>{s..<e}. W h) = (\<Union>h\<in>set (heads_of chunks). W h)"
  by (auto simp: heads_of_def) force+

lemma parallel_for_fills:
  fixes m0 :: "('a::{zero,plus,times}) heap"
  assumes dil: "0 < dilation args"
    and fits: "counter_fits gws gwe args"
    and sep: "no_alias gws gwe args"
    and rng: "0 \<le> b" "b < batch_size args"
    and part: "partition_of 0 (heads args) (sched 0 (heads args) GRAIN_SIZE)"
  shows "fills (out_region args) m0 (expected gws gwe args m0) (batch_cells args b)
           (parallel_for sched 0 (heads args) GRAIN_SIZE (task gws gwe args b))"
proof (cases "heads args \<le> 0")
  case True
  then have "batch_cells args b = {}" by (simp add: batch_cells_def)
  then show ?thesis using True by (intro fillsI) (simp add: parallel_for_def)
next
  case False
  let ?cs = "sched 0 (heads args) GRAIN_SIZE"
  have hs: "set (heads_of ?cs) = {0..<heads args}" using part by (simp add: partition_of_def)
  have inr: "\<And>s e. (s, e) \<in> set ?cs \<Longrightarrow> s < e \<Longrightarrow> 0 \<le> s \<and> e \<le> heads args"
  proof -
    fix s e assume c: "(s, e) \<in> set ?cs" and lt: "s < e"
    have "s \<in> set (heads_of ?cs)" using chunk_in_heads[OF c, of s] lt by simp
    moreover have "e - 1 \<in> set (heads_of ?cs)" using chunk_in_heads[OF c, of "e - 1"] lt by simp
    ultimately show "0 \<le> s \<and> e \<le> heads args" using hs by auto
  qed
  have main: "fills (out_region args) m0 (expected gws gwe args m0)
          (\<Union>(s, e)\<in>set ?cs. \<Union>h\<in>{s..<e}. head_cells args b h)
          (run_chunks ?cs (task gws gwe args b))"
  proof (rule fills_run_chunks)
    fix s e assume c: "(s, e) \<in> set ?cs"
    show "fills (out_region args) m0 (expected gws gwe args m0)
        (\<Union>h\<in>{s..<e}. head_cells args b h) (task gws gwe args b s e)"
    proof (cases "s < e")
      case True
      then show ?thesis using inr[OF c] dil fits sep rng by (intro task_fills) auto
    next
      case False
      then have "\<And>m. task gws gwe args b s e m = Some m"
        unfolding task_def by (subst for_range.simps) simp
      moreover have "(\<Union>h\<in>{s..<e}. head_cells args b h) = {}" using False by simp
      ultimately show ?thesis by (intro fillsI) simp
    qed
    show "(\<Union>h\<in>{s..<e}. head_cells args b h) \<subseteq> out_region args"
    proof (cases "s < e")
      case True
      show ?thesis
      proof (rule UN_least)
        fix h assume "h \<in> {s..<e}"
        then have "0 \<le> h" "h < heads args" using inr[OF c True] by auto
        then show "head_cells args b h \<subseteq> out_region args"
          using head_cells_sub[OF rng] by simp
      qed
    next
      case False
      then show ?thesis by simp
    qed
  qed
  have eq: "parallel_for sched 0 (heads args) GRAIN_SIZE (task gws gwe args b)
      = run_chunks ?cs (task gws gwe args b)"
    using False by (intro ext) (simp add: parallel_for_def)
  have cells: "(\<Union>(s, e)\<in>set ?cs. \<Union>h\<in>{s..<e}. head_cells args b h) = batch_cells args b"
    by (simp only: heads_of_Union hs batch_cells_def)
  show ?thesis
    unfolding eq using main by (simp only: cells)
qed

lemma launch_fills:
  fixes m0 :: "('a::{zero,plus,times}) heap"
  assumes val: "validated args"
    and fits: "counter_fits gws gwe args"
    and sep: "no_alias gws gwe args"
    and fair: "fair sched args"
  shows "fills (out_region args) m0 (expected gws gwe args m0) (out_region args)
           (launch sched gws gwe args)"
proof -
  have dil: "0 < dilation args" and pos: "0 < heads args" "0 < length' args" "0 < dim args"
    using val by (auto simp: validated_def)
  have main: "fills (out_region args) m0 (expected gws gwe args m0)
          (\<Union>b\<in>{0..<batch_size args}. batch_cells args b)
          (for_range 0 (batch_size args)
            (\<lambda>b. parallel_for (sched b) 0 (heads args) GRAIN_SIZE (task gws gwe args b)))"
  proof (rule fills_for_range)
    fix b assume b: "0 \<le> b" "b < batch_size args"
    have "partition_of 0 (heads args) (sched b 0 (heads args) GRAIN_SIZE)"
      using fair b by (simp add: fair_def)
    then show "fills (out_region args) m0 (expected gws gwe args m0) (batch_cells args b)
        (parallel_for (sched b) 0 (heads args) GRAIN_SIZE (task gws gwe args b))"
      using dil fits sep b by (intro parallel_for_fills) auto
    show "batch_cells args b \<subseteq> out_region args" using batch_cells_sub[OF b] .
  qed
  have cells: "(\<Union>b\<in>{0..<batch_size args}. batch_cells args b) = out_region args"
    using out_region_cells[OF pos]
    by (simp add: batch_cells_def head_cells_def row_cells_def)
  have eq: "launch sched gws gwe args
      = for_range 0 (batch_size args)
          (\<lambda>b. parallel_for (sched b) 0 (heads args) GRAIN_SIZE (task gws gwe args b))"
    by (rule ext) (simp add: launch_def)
  show ?thesis
    unfolding eq using main by (simp only: cells)
qed

lemma launch_result:
  fixes mem :: "('a::{zero,plus,times}) heap"
  assumes "validated args" "counter_fits gws gwe args" "no_alias gws gwe args" "fair sched args"
  shows "launch sched gws gwe args mem = Some (final_heap gws gwe args mem)"
  using fillsD[OF launch_fills[OF assms], of mem mem]
  by (simp add: final_heap_def)

lemma neighbors_lt: "x \<in> set (neighbors s e D) \<Longrightarrow> x < e"
proof (induction s e D rule: neighbors.induct)
  case (1 s e D)
  show ?case
  proof (cases "s < e \<and> 0 < D")
    case True
    then show ?thesis using 1 by (auto simp: neighbors_Cons)
  next
    case False
    then show ?thesis using 1 by (simp add: neighbors_Nil)
  qed
qed

lemma neighbors_ge: "x \<in> set (neighbors s e D) \<Longrightarrow> s \<le> x"
proof (induction s e D rule: neighbors.induct)
  case (1 s e D)
  show ?case
  proof (cases "s < e \<and> 0 < D")
    case True
    then show ?thesis using 1 by (auto simp: neighbors_Cons)
  next
    case False
    then show ?thesis using 1 by (simp add: neighbors_Nil)
  qed
qed

lemma neighbors_nth:
  "k < length (neighbors s e D) \<Longrightarrow> neighbors s e D ! k = s + int k * D"
proof (induction s e D arbitrary: k rule: neighbors.induct)
  case (1 s e D)
  show ?case
  proof (cases "s < e \<and> 0 < D")
    case True
    then have ns: "neighbors s e D = s # neighbors (s + D) e D" by (simp add: neighbors_Cons)
    show ?thesis
    proof (cases k)
      case 0
      then show ?thesis by (simp add: ns)
    next
      case (Suc j)
      then have "j < length (neighbors (s + D) e D)" using "1.prems" ns by simp
      then have "neighbors (s + D) e D ! j = s + D + int j * D" using "1.IH"[OF True] by simp
      then show ?thesis using Suc by (simp add: ns algebra_simps)
    qed
  next
    case False
    then show ?thesis using "1.prems" by (simp add: neighbors_Nil)
  qed
qed

lemma neighbors_length:
  "0 < D \<Longrightarrow> (k < length (neighbors s e D)) = (s + int k * D < e)"
proof (induction s e D arbitrary: k rule: neighbors.induct)
  case (1 s e D)
  show ?case
  proof (cases "s < e")
    case True
    then have ns: "neighbors s e D = s # neighbors (s + D) e D"
      using "1.prems" by (simp add: neighbors_Cons)
    show ?thesis
    proof (cases k)
      case 0
      then show ?thesis using True by (simp add: ns)
    next
      case (Suc j)
      have "(j < length (neighbors (s + D) e D)) = (s + D + int j * D < e)"
        using "1.IH"[of j] True "1.prems" by simp
      then show ?thesis using Suc by (simp add: ns algebra_simps)
    qed
  next
    case False
    have "0 \<le> int k * D" using "1.prems" by simp
    then show ?thesis using False by (simp add: neighbors_Nil)
  qed
qed

lemma get_window_start_nonneg:
  assumes "0 \<le> i" "0 < D"
  shows "0 \<le> get_window_start i L K r D c"
proof -
  have "0 \<le> i mod D" using assms by simp
  moreover have "0 \<le> (if c then max 0 (i div D - K + 1) else max 0 (min (i div D - r) ((L - i mod D + D - 1) div D - K))) * D"
    using assms by (intro mult_nonneg_nonneg) auto
  ultimately show ?thesis by (simp add: get_window_start_def Let_def)
qed

lemma get_window_end_le:
  assumes "i < L"
  shows "get_window_end i s L K r D c \<le> L"
  using assms by (simp add: get_window_end_def)

lemma causal_start_closed:
  assumes "0 < D"
  shows "get_window_start i L K r D True = max (i mod D) (i - (K - 1) * D)"
proof -
  have i: "i div D * D + i mod D = i" by simp
  show ?thesis
  proof (cases "0 \<le> i div D - K + 1")
    case True
    then have "0 \<le> (i div D - K + 1) * D" using assms by simp
    moreover have "(i div D - K + 1) * D + i mod D = i - (K - 1) * D"
      using i by (simp add: algebra_simps)
    ultimately show ?thesis using True
      by (simp add: get_window_start_def Let_def max_def)
  next
    case False
    then have "i div D - K + 1 \<le> -1" by simp
    then have "(i div D - K + 1) * D \<le> -1 * D" using assms by (intro mult_right_mono) auto
    moreover have "(i div D - K + 1) * D + i mod D = i - (K - 1) * D"
      using i by (simp add: algebra_simps)
    ultimately show ?thesis using False assms
      by (simp add: get_window_start_def Let_def max_def)
  qed
qed

text \<open>
  C5: with \<open>causal = true\<close> the window of position \<open>i\<close> ends at \<open>i + 1\<close>; it starts
  \<open>K - 1\<close> steps of \<open>dilation\<close> before \<open>i\<close>, but not before the first position of the
  residue class of \<open>i\<close>, which for \<open>dilation = 1\<close> is \<open>max 0 (i - K + 1)\<close>; and every
  neighbor visited is at most \<open>i\<close> and lies in the residue class of \<open>i\<close>.
\<close>

theorem causal_window:
  assumes "0 \<le> i" "i < extent" "1 \<le> K" "1 \<le> D"
  shows "get_window_end i (get_window_start i extent K r D True) extent K r D True = i + 1
    \<and> get_window_start i extent K r D True = max (i mod D) (i - (K - 1) * D)
    \<and> (D = 1 \<longrightarrow> get_window_start i extent K r D True = max 0 (i - K + 1))
    \<and> (\<forall>x\<in>set (neighbors (get_window_start i extent K r D True)
                  (get_window_end i (get_window_start i extent K r D True) extent K r D True) D).
          x \<le> i \<and> x mod D = i mod D)"
proof -
  have D: "0 < D" using assms by simp
  have e: "get_window_end i (get_window_start i extent K r D True) extent K r D True = i + 1"
    by (simp add: get_window_end_def)
  have s: "get_window_start i extent K r D True = max (i mod D) (i - (K - 1) * D)"
    using causal_start_closed[OF D] .
  have s1: "D = 1 \<longrightarrow> get_window_start i extent K r D True = max 0 (i - K + 1)"
    using s by (auto simp: algebra_simps)
  have v: "\<forall>x\<in>set (neighbors (get_window_start i extent K r D True)
                  (get_window_end i (get_window_start i extent K r D True) extent K r D True) D).
          x \<le> i \<and> x mod D = i mod D"
  proof
    fix x
    assume x: "x \<in> set (neighbors (get_window_start i extent K r D True)
                  (get_window_end i (get_window_start i extent K r D True) extent K r D True) D)"
    then have "x < i + 1" using neighbors_lt e by metis
    moreover obtain k where "k < length (neighbors (get_window_start i extent K r D True)
                  (get_window_end i (get_window_start i extent K r D True) extent K r D True) D)"
      and "x = neighbors (get_window_start i extent K r D True)
                  (get_window_end i (get_window_start i extent K r D True) extent K r D True) D ! k"
      using x by (auto simp: in_set_conv_nth)
    then have "x = get_window_start i extent K r D True + int k * D"
      using neighbors_nth by metis
    then have "x mod D = get_window_start i extent K r D True mod D" by simp
    moreover have "get_window_start i extent K r D True mod D = i mod D"
      by (simp add: get_window_start_def Let_def)
    ultimately show "x \<le> i \<and> x mod D = i mod D" by simp
  qed
  show ?thesis using e s s1 v by blast
qed

theorem causal_window_witness:
  "(0::int) \<le> 5 \<and> (5::int) < 9 \<and> (1::int) \<le> 3 \<and> (1::int) \<le> 2
   \<and> get_window_end 5 (get_window_start 5 9 3 1 2 True) 9 3 1 2 True = 6
   \<and> get_window_start 5 9 3 1 2 True = 1
   \<and> neighbors 1 6 2 = [1, 3, 5]"
  using causal_window[of 5 9 3 2 1]
  by (simp add: neighbors_Cons neighbors_Nil get_window_start_def get_window_end_def)

lemma window_in_bounds:
  assumes "0 \<le> i" "i < L" "0 < D"
    and "x \<in> set (neighbors (get_window_start i L K r D c)
                 (get_window_end i (get_window_start i L K r D c) L K r D c) D)"
  shows "0 \<le> x \<and> x < L"
proof -
  have "get_window_start i L K r D c \<le> x" using assms(4) by (rule neighbors_ge)
  moreover have "x < get_window_end i (get_window_start i L K r D c) L K r D c"
    using assms(4) by (rule neighbors_lt)
  ultimately show ?thesis
    using get_window_start_nonneg[OF assms(1,3), of L K r c]
      get_window_end_le[OF assms(2), of "get_window_start i L K r D c" K r D c]
    by linarith
qed

text \<open>
  C1 (amended): for every validated input on which the counter \<open>xi\<close> stays an
  \<^verbatim>\<open>int32_t\<close>, whose output overlaps none of the addresses read, and every schedule
  that partitions the heads, \<^verbatim>\<open>launch\<close> returns and output element \<open>(b, h, i, d)\<close>
  holds the sum over \<open>k\<close> of \<open>weights[b, h, i, k] * values[b, h, neighbor k, d]\<close>, added
  from the left starting at zero, where \<open>neighbor k = window_start i + k * dilation\<close> for
  exactly the \<open>k\<close> with \<open>neighbor k < window_end i\<close>, and the \<open>k\<close>-th neighbor takes the
  \<open>k\<close>-th weight of the row, counted from \<open>0\<close>.
\<close>

theorem aggregate_pattern:
  fixes mem :: "('a::{zero,plus,times}) heap"
  assumes "validated args" "counter_fits gws gwe args" "no_alias gws gwe args" "fair sched args"
    and "0 \<le> b" "b < batch_size args" "0 \<le> h" "h < heads args"
    and "0 \<le> i" "i < length' args" "0 \<le> d" "d < dim args"
  shows "\<exists>mem'. launch sched gws gwe args mem = Some mem'
    \<and> mem' (output' args + linearIndex args b h i d) =
        foldl (\<lambda>acc k. acc + mem (weights args + attn_index args b h i (int k))
                 * mem (values' args
                     + linearIndex args b h (window_start gws args i + int k * dilation args) d))
          0 [0..<length (window gws gwe args i)]
    \<and> (\<forall>k. (k < length (window gws gwe args i))
          = (window_start gws args i + int k * dilation args < window_end gws gwe args i))"
proof -
  have D: "0 < dilation args" using assms(1) by (simp add: validated_def)
  have cell: "output' args + linearIndex args b h i d \<in> out_region args"
    using assms(5-12) by (intro cell_in_region) auto
  have "expected gws gwe args mem (output' args + linearIndex args b h i d)
      = aggregate mem args b h i d (window gws gwe args i)"
    using cell_of_linearIndex[OF assms(7-12)] by (simp add: expected_def)
  also have "\<dots> = foldl (\<lambda>acc k. acc + mem (weights args + attn_index args b h i (int k))
                 * mem (values' args
                     + linearIndex args b h (window_start gws args i + int k * dilation args) d))
          0 [0..<length (window gws gwe args i)]"
    unfolding aggregate_def
    by (rule foldl_cong[OF refl refl]) (simp add: window_def neighbors_nth)
  finally have v: "final_heap gws gwe args mem (output' args + linearIndex args b h i d)
      = foldl (\<lambda>acc k. acc + mem (weights args + attn_index args b h i (int k))
                 * mem (values' args
                     + linearIndex args b h (window_start gws args i + int k * dilation args) d))
          0 [0..<length (window gws gwe args i)]"
    using cell by (simp add: final_heap_def)
  have n: "\<forall>k. (k < length (window gws gwe args i))
          = (window_start gws args i + int k * dilation args < window_end gws gwe args i)"
    using neighbors_length[OF D] by (simp add: window_def)
  show ?thesis
    using launch_result[OF assms(1-4), of mem] v n by simp
qed

lemma fair_sequential: "fair sequential args"
proof -
  have "{0..heads args - 1} = {0..<heads args}" by auto
  then show ?thesis
    by (simp add: fair_def partition_of_def heads_of_def sequential_def)
qed

lemma counter_fits_windows:
  assumes "0 < dilation args" "length' args + dilation args \<le> INT32_MAX + 1"
  shows "counter_fits get_window_start get_window_end args"
  unfolding counter_fits_def
proof (intro ballI)
  fix i x
  assume i: "i \<in> {0..<length' args}"
    and x: "x \<in> set (window get_window_start get_window_end args i)"
  have "0 \<le> x \<and> x < length' args"
    using i x assms(1)
    by (intro window_in_bounds[of i _ "dilation args" x "kernel_size args"
          "neighborhood_size args" "is_causal args"])
       (auto simp: window_def window_start_def window_end_def)
  then show "x + dilation args \<le> INT32_MAX" using assms(2) by linarith
qed

lemma window_length_le:
  assumes "0 < D" "0 \<le> K"
  shows "length (neighbors (get_window_start i L K r D c)
                  (get_window_end i (get_window_start i L K r D c) L K r D c) D) \<le> nat K"
proof -
  let ?s = "get_window_start i L K r D c"
  let ?e = "get_window_end i ?s L K r D c"
  have "?e \<le> ?s + K * D"
  proof (cases c)
    case True
    have "i - (K - 1) * D \<le> ?s" using True causal_start_closed[OF assms(1)] by simp
    moreover have "?e = i + 1" using True by (simp add: get_window_end_def)
    ultimately show ?thesis using assms(1) by (simp add: algebra_simps)
  next
    case False
    then show ?thesis by (simp add: get_window_end_def)
  qed
  then have "\<not> (?s + int (nat K) * D < ?e)" using assms(2) by simp
  then have "\<not> (nat K < length (neighbors ?s ?e D))"
    using neighbors_length[OF assms(1), of "nat K" ?s ?e] by simp
  then show ?thesis by simp
qed

lemma attn_index_bound:
  assumes "contiguous_weights args"
    and "0 \<le> b" "b < batch_size args" "0 \<le> h" "h < heads args"
    and "0 \<le> i" "i < length' args" "0 \<le> k" "k < kernel_size args"
  shows "0 \<le> attn_index args b h i k \<and> attn_index args b h i k < weights_numel args"
proof -
  have eq: "attn_index args b h i k
      = ((b * heads args + h) * length' args + i) * kernel_size args + k"
    using assms(1) by (simp add: attn_index_def contiguous_weights_def algebra_simps)
  have 1: "0 \<le> b * heads args + h \<and> b * heads args + h < batch_size args * heads args"
    using assms by (intro digit_bound) auto
  have 2: "0 \<le> (b * heads args + h) * length' args + i
      \<and> (b * heads args + h) * length' args + i < (batch_size args * heads args) * length' args"
    using assms 1 by (intro digit_bound) auto
  have 3: "0 \<le> ((b * heads args + h) * length' args + i) * kernel_size args + k
      \<and> ((b * heads args + h) * length' args + i) * kernel_size args + k
          < ((batch_size args * heads args) * length' args) * kernel_size args"
    using assms 2 by (intro digit_bound) auto
  show ?thesis using 3 by (simp add: eq weights_numel_def)
qed

lemma no_alias_contiguous:
  assumes val: "validated args" and cw: "contiguous_weights args"
    and sw: "separate (weights args) (weights_numel args) (output' args) (numel args)"
    and sv: "separate (values' args) (numel args) (output' args) (numel args)"
  shows "no_alias get_window_start get_window_end args"
  unfolding no_alias_def
proof (intro ballI)
  fix b h i d a
  assume b: "b \<in> {0..<batch_size args}" and h: "h \<in> {0..<heads args}"
    and i: "i \<in> {0..<length' args}" and d: "d \<in> {0..<dim args}"
    and a: "a \<in> set (reads get_window_start get_window_end args b h i d)"
  let ?w = "window get_window_start get_window_end args i"
  have D: "0 < dilation args" and K: "0 \<le> kernel_size args"
    using val by (auto simp: validated_def)
  have len: "length ?w \<le> nat (kernel_size args)"
    using window_length_le[OF D K]
    by (simp add: window_def window_start_def window_end_def)
  from a consider
    (w) k where "k < length ?w" "a = weights args + attn_index args b h i (int k)"
    | (v) x where "x \<in> set ?w" "a = values' args + linearIndex args b h x d"
    by (auto simp: reads_def)
  then show "a \<notin> out_region args"
  proof cases
    case w
    then have "int k < kernel_size args" using len by linarith
    then have "0 \<le> attn_index args b h i (int k)
        \<and> attn_index args b h i (int k) < weights_numel args"
      using cw b h i by (intro attn_index_bound) auto
    then show ?thesis using sw w(2) by (auto simp: out_region_def separate_def)
  next
    case v
    have "0 \<le> x \<and> x < length' args"
      using i v(1) D
      by (intro window_in_bounds[of i _ "dilation args" x "kernel_size args"
            "neighborhood_size args" "is_causal args"])
         (auto simp: window_def window_start_def window_end_def)
    then have "0 \<le> linearIndex args b h x d \<and> linearIndex args b h x d < numel args"
      using b h d by (intro linearIndex_bound) auto
    then show ?thesis using sv v(2) by (auto simp: out_region_def separate_def)
  qed
qed

lemmas window_eval = window_def window_start_def window_end_def get_window_start_def
  get_window_end_def neighborhood_size_def neighbors_Cons neighbors_Nil Let_def
  signed_divide_int_def

lemma ex_validated: "validated example_args"
  by (simp add: validated_def example_args_def)

lemma ex_fits: "counter_fits get_window_start get_window_end example_args"
  by (rule counter_fits_windows) (simp_all add: example_args_def INT32_MAX_def)

lemma ex_no_alias: "no_alias get_window_start get_window_end example_args"
  by (rule no_alias_contiguous[OF ex_validated])
     (simp_all add: example_args_def contiguous_weights_def separate_def numel_def
        weights_numel_def)

theorem aggregate_pattern_witness:
  "validated example_args \<and> counter_fits get_window_start get_window_end example_args
   \<and> no_alias get_window_start get_window_end example_args \<and> fair sequential example_args
   \<and> (\<exists>mem'. launch sequential get_window_start get_window_end example_args (\<lambda>a. a) = Some mem'
        \<and> mem' 213 = (6445 :: int))"
  using aggregate_pattern[OF ex_validated ex_fits ex_no_alias fair_sequential,
      of 0 1 2 1 "\<lambda>a. a"]
    ex_validated ex_fits ex_no_alias fair_sequential[of example_args]
  by (auto simp add: example_args_def window_eval linearIndex_def attn_index_def
      values_stride_0_def values_stride_1_def values_stride_2_def)



lemma linearIndex_inj:
  assumes "0 \<le> h" "h < heads args" "0 \<le> i" "i < length' args" "0 \<le> d" "d < dim args"
    and "0 \<le> h'" "h' < heads args" "0 \<le> i'" "i' < length' args" "0 \<le> d'" "d' < dim args"
    and "linearIndex args b h i d = linearIndex args b' h' i' d'"
  shows "b = b' \<and> h = h' \<and> i = i' \<and> d = d'"
proof -
  have "(b, h, i, d) = cell_of args (linearIndex args b h i d)"
    using assms(1-6) by (rule cell_of_linearIndex[symmetric])
  also have "\<dots> = cell_of args (linearIndex args b' h' i' d')"
    by (simp only: assms(13))
  also have "\<dots> = (b', h', i', d')"
    using assms(7-12) by (rule cell_of_linearIndex)
  finally show ?thesis by simp
qed

lemma heads_of_rev_singletons:
  "heads_of (rev (map (\<lambda>h. (h, h + 1)) xs)) = rev xs"
  by (induction xs) (simp_all add: heads_of_def)

lemma fair_reversed: "fair reversed args"
proof -
  have "heads_of (rev (map (\<lambda>h. (h, h + 1)) [0..heads args - 1])) = rev [0..heads args - 1]"
    by (rule heads_of_rev_singletons)
  moreover have "{0..heads args - 1} = {0..<heads args}" by auto
  ultimately show ?thesis
    by (simp add: fair_def partition_of_def reversed_def)
qed

lemma scenario_validated: "validated (scenario_args c)"
  by (simp add: validated_def scenario_args_def)

lemma scenario_fits: "counter_fits get_window_start get_window_end (scenario_args c)"
  by (rule counter_fits_windows) (simp_all add: scenario_args_def INT32_MAX_def)

lemma scenario_no_alias: "no_alias get_window_start get_window_end (scenario_args c)"
  by (rule no_alias_contiguous[OF scenario_validated])
     (simp_all add: scenario_args_def contiguous_weights_def separate_def numel_def
        weights_numel_def)

lemmas example_eval = final_heap_def out_region_def numel_def expected_def cell_of_def
  aggregate_def attn_index_def linearIndex_def values_stride_0_def values_stride_1_def
  values_stride_2_def window_eval

text \<open>
  C3: length 5, kernel size 3, dilation 1, not causal, dim 1, every weight and every
  value equal to 1: the output is \<open>[3, 3, 3, 3, 3]\<close>.
\<close>

theorem scenario_non_causal:
  fixes mem :: "('a::semiring_1) heap"
  assumes "fair sched (scenario_args False)"
    and "\<forall>a\<in>{0..<20}. mem a = 1"
  shows "\<exists>mem'. launch sched get_window_start get_window_end (scenario_args False) mem = Some mem'
    \<and> map mem' [20, 21, 22, 23, 24] = [3, 3, 3, 3, 3]"
proof -
  have ones: "\<And>a. 0 \<le> a \<Longrightarrow> a < 20 \<Longrightarrow> mem a = 1" using assms(2) by simp
  have "launch sched get_window_start get_window_end (scenario_args False) mem
      = Some (final_heap get_window_start get_window_end (scenario_args False) mem)"
    using scenario_validated scenario_fits scenario_no_alias assms(1) by (rule launch_result)
  moreover have "map (final_heap get_window_start get_window_end (scenario_args False) mem)
      [20, 21, 22, 23, 24] = [3, 3, 3, 3, 3]"
    by (simp add: example_eval scenario_args_def ones)
  ultimately show ?thesis by simp
qed

theorem scenario_non_causal_witness:
  "fair sequential (scenario_args False) \<and> all_ones 0 = 1 \<and> all_ones 19 = 1
   \<and> (\<exists>mem'. launch sequential get_window_start get_window_end (scenario_args False) all_ones
                 = Some mem'
        \<and> map mem' [20, 21, 22, 23, 24] = [3, 3, 3, 3, 3])"
proof -
  have o: "\<forall>a\<in>{0..<20}. all_ones a = 1" by (simp add: all_ones_def)
  show ?thesis
    using scenario_non_causal[OF fair_sequential o] fair_sequential[of "scenario_args False"]
    by (simp add: all_ones_def)
qed

text \<open>
  C4: the same call with \<open>causal = true\<close>: the output is \<open>[1, 2, 3, 3, 3]\<close>.
\<close>

theorem scenario_causal:
  fixes mem :: "('a::semiring_1) heap"
  assumes "fair sched (scenario_args True)"
    and "\<forall>a\<in>{0..<20}. mem a = 1"
  shows "\<exists>mem'. launch sched get_window_start get_window_end (scenario_args True) mem = Some mem'
    \<and> map mem' [20, 21, 22, 23, 24] = [1, 2, 3, 3, 3]"
proof -
  have ones: "\<And>a. 0 \<le> a \<Longrightarrow> a < 20 \<Longrightarrow> mem a = 1" using assms(2) by simp
  have "launch sched get_window_start get_window_end (scenario_args True) mem
      = Some (final_heap get_window_start get_window_end (scenario_args True) mem)"
    using scenario_validated scenario_fits scenario_no_alias assms(1) by (rule launch_result)
  moreover have "map (final_heap get_window_start get_window_end (scenario_args True) mem)
      [20, 21, 22, 23, 24] = [1, 2, 3, 3, 3]"
    by (simp add: example_eval scenario_args_def ones)
  ultimately show ?thesis by simp
qed

theorem scenario_causal_witness:
  "fair sequential (scenario_args True) \<and> all_ones 0 = 1 \<and> all_ones 19 = 1
   \<and> (\<exists>mem'. launch sequential get_window_start get_window_end (scenario_args True) all_ones
                 = Some mem'
        \<and> map mem' [20, 21, 22, 23, 24] = [1, 2, 3, 3, 3])"
proof -
  have o: "\<forall>a\<in>{0..<20}. all_ones a = 1" by (simp add: all_ones_def)
  show ?thesis
    using scenario_causal[OF fair_sequential o] fair_sequential[of "scenario_args True"]
    by (simp add: all_ones_def)
qed

lemma for_range_step:
  "lo < hi \<Longrightarrow> for_range lo hi body s =
     (case body lo s of None \<Rightarrow> None | Some s' \<Rightarrow> for_range (lo + 1) hi body s')"
  by (subst for_range.simps) simp

lemma for_range_done: "\<not> lo < hi \<Longrightarrow> for_range lo hi body s = Some s"
  by (subst for_range.simps) simp

lemma fair_only_grain: "fair (only_grain GRAIN_SIZE) args"
proof -
  have "{0..heads args - 1} = {0..<heads args}" by auto
  then show ?thesis
    by (simp add: fair_def partition_of_def heads_of_def only_grain_def)
qed

text \<open>
  C7 (amended): the grain size is not a parameter of the operation. Every call asks
  \<^verbatim>\<open>at::parallel_for\<close> with the constant \<open>GRAIN_SIZE = 0\<close>: the result of a call
  depends on the runtime only through what it does when asked with grain size 0.
\<close>

theorem grain_size_fixed:
  "NeighborhoodNeighborhood1D sched gws gwe attn_ptr value_ptr output_ptr
       B H L dm stride_0 stride_1 stride_2 K D causal mem
     = NeighborhoodNeighborhood1D (\<lambda>b begin' end' grain_size. sched b begin' end' 0) gws gwe
         attn_ptr value_ptr output_ptr B H L dm stride_0 stride_1 stride_2 K D causal mem
   \<and> GRAIN_SIZE = 0"
proof -
  have eq: "(\<lambda>b. parallel_for (sched b) 0 H GRAIN_SIZE (F b))
      = (\<lambda>b. parallel_for (\<lambda>begin' end' grain_size. sched b begin' end' 0) 0 H GRAIN_SIZE (F b))"
    for F :: "int \<Rightarrow> int \<Rightarrow> int \<Rightarrow> 'a heap \<Rightarrow> 'a heap option"
    by (intro ext) (simp add: parallel_for_def GRAIN_SIZE_def)
  have "launch sched gws gwe args mem
      = launch (\<lambda>b begin' end' grain_size. sched b begin' end' 0) gws gwe args mem"
    if "heads args = H" for args
    unfolding launch_def that by (simp only: eq)
  then show ?thesis
    by (simp add: NeighborhoodNeighborhood1D_def GRAIN_SIZE_def)
qed

theorem grain_size_fixed_witness:
  "NeighborhoodNeighborhood1D (only_grain 0) get_window_start get_window_end
       0 100 200 1 2 4 2 24 12 3 3 1 False (\<lambda>a. a :: int)
     = NeighborhoodNeighborhood1D (\<lambda>b begin' end' grain_size. only_grain 0 b begin' end' 0)
         get_window_start get_window_end 0 100 200 1 2 4 2 24 12 3 3 1 False (\<lambda>a. a)
   \<and> GRAIN_SIZE = 0"
  using grain_size_fixed[of "only_grain 0" get_window_start get_window_end
      0 100 200 1 2 4 2 24 12 3 3 1 False "\<lambda>a. a :: int"]
  by simp

text \<open>
  Against C7 as stated: no argument of the entry point carries a grain size. On a
  runtime that waits for grain size 1 the call schedules nothing and leaves the memory
  as it was; on a runtime that waits for grain size 0 the same call computes its output.
\<close>

theorem grain_size_not_tunable:
  "NeighborhoodNeighborhood1D (only_grain 1) get_window_start get_window_end
       0 100 200 1 2 4 2 24 12 3 3 1 False (\<lambda>a. a :: int) = Some (\<lambda>a. a)
   \<and> (\<exists>mem'. NeighborhoodNeighborhood1D (only_grain 0) get_window_start get_window_end
                 0 100 200 1 2 4 2 24 12 3 3 1 False (\<lambda>a. a :: int) = Some mem'
          \<and> mem' 213 = 6445)"
proof -
  have 1: "NeighborhoodNeighborhood1D (only_grain 1) get_window_start get_window_end
       0 100 200 1 2 4 2 24 12 3 3 1 False (\<lambda>a. a :: int) = Some (\<lambda>a. a)"
    by (simp add: NeighborhoodNeighborhood1D_def launch_def parallel_for_def only_grain_def
        GRAIN_SIZE_def for_range_step for_range_done)
  have "launch (only_grain GRAIN_SIZE) get_window_start get_window_end example_args (\<lambda>a. a :: int)
      = Some (final_heap get_window_start get_window_end example_args (\<lambda>a. a))"
    using ex_validated ex_fits ex_no_alias fair_only_grain by (rule launch_result)
  moreover have "final_heap get_window_start get_window_end example_args (\<lambda>a. a :: int) 213 = 6445"
    by (simp add: example_eval example_args_def)
  ultimately have 2: "\<exists>mem'. NeighborhoodNeighborhood1D (only_grain 0) get_window_start get_window_end
                 0 100 200 1 2 4 2 24 12 3 3 1 False (\<lambda>a. a :: int) = Some mem'
          \<and> mem' 213 = 6445"
    by (simp add: NeighborhoodNeighborhood1D_def example_args_def GRAIN_SIZE_def)
  show ?thesis using 1 2 by (rule conjI)
qed

lemma padded_validated: "validated padded_args"
  by (simp add: validated_def padded_args_def)

lemma padded_fits: "counter_fits get_window_start get_window_end padded_args"
  by (rule counter_fits_windows) (simp_all add: padded_args_def INT32_MAX_def)

lemma padded_no_alias: "no_alias get_window_start get_window_end padded_args"
  by (rule no_alias_contiguous[OF padded_validated])
     (simp_all add: padded_args_def contiguous_weights_def separate_def numel_def
        weights_numel_def)

text \<open>
  Against C8 as stated: on values whose positions lie two elements apart, a kernel that
  read at the caller's strides would store \<open>9\<close> for position 1; \<^verbatim>\<open>launch\<close> reads
  position 1 at \<open>values + 1 * dim\<close>, the padding, and stores \<open>7\<close>.
\<close>

theorem values_stride_ignored:
  "window get_window_start get_window_end padded_args 1 = [1]
   \<and> strided_aggregate padded_mem padded_args (4, 4, 2, 1) 0 0 1 0
        (window get_window_start get_window_end padded_args 1) = 9
   \<and> (\<exists>mem'. launch sequential get_window_start get_window_end padded_args padded_mem = Some mem'
        \<and> mem' (output' padded_args + 1) = 7)
   \<and> (7 :: int) \<noteq> 9"
proof -
  have w: "window get_window_start get_window_end padded_args 1 = [1]"
    by (simp add: padded_args_def window_eval)
  have s: "strided_aggregate padded_mem padded_args (4, 4, 2, 1) 0 0 1 0
        (window get_window_start get_window_end padded_args 1) = 9"
    unfolding w by (simp add: strided_aggregate_def padded_mem_def padded_args_def attn_index_def)
  have "launch sequential get_window_start get_window_end padded_args padded_mem
      = Some (final_heap get_window_start get_window_end padded_args padded_mem)"
    using padded_validated padded_fits padded_no_alias fair_sequential by (rule launch_result)
  moreover have "final_heap get_window_start get_window_end padded_args padded_mem
      (output' padded_args + 1) = 7"
    by (simp add: example_eval padded_args_def padded_mem_def)
  ultimately have l: "\<exists>mem'. launch sequential get_window_start get_window_end padded_args padded_mem
        = Some mem' \<and> mem' (output' padded_args + 1) = 7"
    by simp
  show ?thesis using w s l by simp
qed

text \<open>
  C8 (amended): the weights are addressed by the caller's strides along batch, head and
  query position, and by unit stride along the window; the values and the output are
  addressed as contiguous \<open>[batch, heads, length, dim]\<close> buffers, with strides computed
  from the shape: element \<open>(b, h, i, d)\<close> is at offset
  \<open>((b * heads + h) * length + i) * dim + d\<close>.
\<close>

theorem contiguous_addressing:
  fixes mem :: "('a::{zero,plus,times}) heap"
  assumes "validated args" "counter_fits gws gwe args" "no_alias gws gwe args" "fair sched args"
    and "0 \<le> b" "b < batch_size args" "0 \<le> h" "h < heads args"
    and "0 \<le> i" "i < length' args" "0 \<le> d" "d < dim args"
  shows "\<exists>mem'. launch sched gws gwe args mem = Some mem'
    \<and> mem' (output' args + (((b * heads args + h) * length' args + i) * dim args + d)) =
        foldl (\<lambda>acc k. acc
                 + mem (weights args + (b * weights_stride_0 args + h * weights_stride_1 args
                          + i * weights_stride_2 args + int k))
                 * mem (values' args + (((b * heads args + h) * length' args
                          + window gws gwe args i ! k) * dim args + d)))
          0 [0..<length (window gws gwe args i)]"
proof -
  have cell: "output' args + linearIndex args b h i d \<in> out_region args"
    using assms(5-12) by (intro cell_in_region) auto
  have "final_heap gws gwe args mem (output' args + linearIndex args b h i d)
      = aggregate mem args b h i d (window gws gwe args i)"
    using cell cell_of_linearIndex[OF assms(7-12)] by (simp add: final_heap_def expected_def)
  also have "\<dots> = foldl (\<lambda>acc k. acc
                 + mem (weights args + (b * weights_stride_0 args + h * weights_stride_1 args
                          + i * weights_stride_2 args + int k))
                 * mem (values' args + (((b * heads args + h) * length' args
                          + window gws gwe args i ! k) * dim args + d)))
          0 [0..<length (window gws gwe args i)]"
    by (simp add: aggregate_def attn_index_def linearIndex_nested)
  finally show ?thesis
    using launch_result[OF assms(1-4), of mem] by (simp add: linearIndex_nested)
qed

theorem contiguous_addressing_witness:
  "validated padded_args \<and> counter_fits get_window_start get_window_end padded_args
   \<and> no_alias get_window_start get_window_end padded_args \<and> fair sequential padded_args
   \<and> (\<exists>mem'. launch sequential get_window_start get_window_end padded_args padded_mem = Some mem'
        \<and> mem' 21 = padded_mem 1 * padded_mem 11)"
  using contiguous_addressing[OF padded_validated padded_fits padded_no_alias fair_sequential,
      of 0 0 1 0 padded_mem]
    padded_validated padded_fits padded_no_alias fair_sequential[of padded_args]
  by (auto simp add: padded_args_def window_eval)

lemma ulp_small: "n < 2048 \<Longrightarrow> ulp n = 1"
  by (subst ulp.simps) simp

lemma ulp_large: "\<not> n < 2048 \<Longrightarrow> ulp n = 2 * ulp (n div 2)"
  by (subst ulp.simps) simp

lemma plus_Half: "Half a + Half b = Half (round_half (a + b))"
  by (simp add: plus_half_def narrow_def)

lemma times_Half: "Half a * Half b = Half (round_half (a * b))"
  by (simp add: times_half_def narrow_def)

lemma round_half_values:
  "round_half 1 = 1" "round_half 2048 = 2048" "round_half 2049 = 2048"
  "round_half 2050 = 2050"
  by (simp_all add: round_half_def ulp_small ulp_large Let_def)

lemmas half_eval = plus_Half times_Half zero_half_def narrow_def round_half_values

lemma rounding_validated: "validated rounding_args"
  by (simp add: validated_def rounding_args_def)

lemma rounding_fits: "counter_fits get_window_start get_window_end rounding_args"
  by (rule counter_fits_windows) (simp_all add: rounding_args_def INT32_MAX_def)

lemma rounding_no_alias: "no_alias get_window_start get_window_end rounding_args"
  by (rule no_alias_contiguous[OF rounding_validated])
     (simp_all add: rounding_args_def contiguous_weights_def separate_def numel_def
        weights_numel_def)

text \<open>
  C2 (amended): the accumulation is carried out in the element type itself. The value
  stored for an output element is the sum built with the addition and the multiplication
  of \<^verbatim>\<open>scalar_t\<close> from the zero of \<^verbatim>\<open>scalar_t\<close>, one product after the other;
  no wider accumulator is used and nothing is cast on the store.
\<close>

theorem accumulates_in_element_type:
  fixes mem :: "('a::{zero,plus,times}) heap"
  assumes "0 < dilation args"
    and "\<forall>x\<in>set (neighbors ni ei (dilation args)). x + dilation args \<le> INT32_MAX"
  shows "d_body args ni ei b h i d mem =
     Some (mem(output' args + linearIndex args b h i d :=
       foldl (\<lambda>(acc :: 'a) k. acc + mem (weights args + attn_index args b h i (int k))
                 * mem (values' args + linearIndex args b h (ni + int k * dilation args) d))
         0 [0..<length (neighbors ni ei (dilation args))]))"
proof -
  have "xi_loop mem args (b * values_stride_0 args + h * values_stride_1 args + d) ei ni
          (b * weights_stride_0 args + h * weights_stride_1 args + i * weights_stride_2 args) 0
      = Some (foldl (\<lambda>acc k. acc + mem (weights args
                  + ((b * weights_stride_0 args + h * weights_stride_1 args + i * weights_stride_2 args) + int k))
                * mem (values' args + ((b * values_stride_0 args + h * values_stride_1 args + d)
                    + (neighbors ni ei (dilation args) ! k) * values_stride_2 args)))
            0 [0..<length (neighbors ni ei (dilation args))])"
    using assms by (rule xi_loop_foldl)
  also have "foldl (\<lambda>acc k. acc + mem (weights args
                  + ((b * weights_stride_0 args + h * weights_stride_1 args + i * weights_stride_2 args) + int k))
                * mem (values' args + ((b * values_stride_0 args + h * values_stride_1 args + d)
                    + (neighbors ni ei (dilation args) ! k) * values_stride_2 args)))
            0 [0..<length (neighbors ni ei (dilation args))]
      = foldl (\<lambda>acc k. acc + mem (weights args + attn_index args b h i (int k))
                 * mem (values' args + linearIndex args b h (ni + int k * dilation args) d))
         0 [0..<length (neighbors ni ei (dilation args))]"
    by (rule foldl_cong[OF refl refl])
       (simp add: neighbors_nth attn_index_def linearIndex_def ac_simps)
  finally show ?thesis
    by (simp add: d_body_def Let_def linearIndex_def)
qed

theorem accumulates_in_element_type_witness:
  "(0::int) < dilation rounding_args
   \<and> neighbors 0 3 (dilation rounding_args) = [0, 1, 2]
   \<and> d_body rounding_args 0 3 0 0 0 0 rounding_mem = Some (rounding_mem(20 := Half 2048))"
proof -
  have n: "neighbors 0 3 (dilation rounding_args) = [0, 1, 2]"
    by (simp add: rounding_args_def neighbors_Cons neighbors_Nil)
  have f: "\<forall>x\<in>set (neighbors 0 3 (dilation rounding_args)).
      x + dilation rounding_args \<le> INT32_MAX"
    unfolding n by (simp add: rounding_args_def INT32_MAX_def)
  have D: "0 < dilation rounding_args" by (simp add: rounding_args_def)
  show ?thesis
    using accumulates_in_element_type[OF D f, of 0 0 0 0 rounding_mem] n D
    by (simp add: rounding_args_def rounding_mem_def linearIndex_def attn_index_def
        values_stride_0_def values_stride_1_def values_stride_2_def half_eval)
qed

text \<open>
  Against C2 as stated: on half-precision values 2048, 1, 1 with weights 1, accumulating
  in single precision and casting on the store would give 2050; \<^verbatim>\<open>launch\<close> rounds
  every partial sum to half precision and stores 2048.
\<close>

theorem accumulator_not_extended:
  "window get_window_start get_window_end rounding_args 0 = [0, 1, 2]
   \<and> extended_aggregate rounding_mem rounding_args 0 0 0 0
        (window get_window_start get_window_end rounding_args 0) = Half 2050
   \<and> (\<exists>mem'. launch sequential get_window_start get_window_end rounding_args rounding_mem
                 = Some mem'
        \<and> mem' (output' rounding_args) = Half 2048)
   \<and> Half 2048 \<noteq> Half 2050"
proof -
  have w: "window get_window_start get_window_end rounding_args 0 = [0, 1, 2]"
    by (simp add: rounding_args_def window_eval)
  have e: "extended_aggregate rounding_mem rounding_args 0 0 0 0
        (window get_window_start get_window_end rounding_args 0) = Half 2050"
    unfolding w
    by (simp add: extended_aggregate_def rounding_mem_def rounding_args_def attn_index_def
        linearIndex_def values_stride_0_def values_stride_1_def values_stride_2_def half_eval)
  have "launch sequential get_window_start get_window_end rounding_args rounding_mem
      = Some (final_heap get_window_start get_window_end rounding_args rounding_mem)"
    using rounding_validated rounding_fits rounding_no_alias fair_sequential
    by (rule launch_result)
  moreover have "final_heap get_window_start get_window_end rounding_args rounding_mem
      (output' rounding_args) = Half 2048"
    by (simp add: example_eval rounding_args_def rounding_mem_def half_eval)
  ultimately have l: "\<exists>mem'. launch sequential get_window_start get_window_end rounding_args
      rounding_mem = Some mem' \<and> mem' (output' rounding_args) = Half 2048"
    by simp
  show ?thesis using w e l by simp
qed

lemma xi_loop_done: "\<not> xi < ei \<Longrightarrow> xi_loop mem args vo ei xi ao acc = Some acc"
  by (subst xi_loop.simps) simp

lemma xi_loop_undefined:
  "xi < ei \<Longrightarrow> dilation args \<le> 0 \<or> INT32_MAX < xi + dilation args
     \<Longrightarrow> xi_loop mem args vo ei xi ao acc = None"
  by (subst xi_loop.simps) (simp add: Let_def)

lemma xi_loop_step:
  "xi < ei \<Longrightarrow> \<not> (dilation args \<le> 0 \<or> INT32_MAX < xi + dilation args)
     \<Longrightarrow> xi_loop mem args vo ei xi ao acc =
         xi_loop mem args vo ei (xi + dilation args) (ao + 1)
           (acc + mem (weights args + ao) * mem (values' args + (vo + xi * values_stride_2 args)))"
  by (subst xi_loop.simps) (simp add: Let_def)

lemma big_validated: "validated big_args"
  by (simp add: validated_def big_args_def)

lemma big_no_alias: "no_alias get_window_start get_window_end big_args"
  by (rule no_alias_contiguous[OF big_validated])
     (simp_all add: big_args_def contiguous_weights_def separate_def numel_def
        weights_numel_def)

lemmas kernel_eval = launch_def parallel_for_def task_def i_body_def d_body_def
  for_range_step for_range_done xi_loop_done xi_loop_undefined xi_loop_step
  values_stride_0_def values_stride_1_def values_stride_2_def GRAIN_SIZE_def INT32_MAX_def
  get_window_start_def get_window_end_def neighborhood_size_def signed_divide_int_def Let_def

text \<open>
  Against C1 as stated: the input is validated, its output overlaps no address read, and
  the call does not return. For query position 1 the loop visits neighbor 1 and then
  advances \<open>xi\<close> by the dilation, beyond \<open>INT32_MAX\<close>.
\<close>

theorem aggregate_overflow:
  "validated big_args \<and> no_alias get_window_start get_window_end big_args
   \<and> fair sequential big_args
   \<and> launch sequential get_window_start get_window_end big_args (\<lambda>a. 1 :: int) = None"
proof -
  have "launch sequential get_window_start get_window_end big_args (\<lambda>a. 1 :: int) = None"
    by (simp add: kernel_eval sequential_def big_args_def)
  then show ?thesis
    using big_validated big_no_alias fair_sequential[of big_args] by simp
qed

lemma exec_xi_prog:
  fixes m :: "('a::{zero,plus,times}) heap"
  shows "exec args (xi_prog args vo ei xi ao acc rest) (m, l) =
     (case xi_loop m args vo ei xi ao acc of
        None \<Rightarrow> None
      | Some v \<Rightarrow> exec args (rest v) (m, l @ xi_log args vo ao (neighbors xi ei (dilation args))))"
proof (induction m args vo ei xi ao acc arbitrary: l rule: xi_loop.induct)
  case (1 m args vo ei xi ao acc)
  show ?case
  proof (cases "xi < ei")
    case False
    then show ?thesis
      by (subst xi_prog.simps) (simp add: xi_loop_done neighbors_Nil)
  next
    case True
    show ?thesis
    proof (cases "dilation args \<le> 0 \<or> INT32_MAX < xi + dilation args")
      case undef: True
      then show ?thesis
        using True by (subst xi_prog.simps) (simp add: xi_loop_undefined base_def)
    next
      case ok: False
      then have D: "0 < dilation args" by simp
      have ns: "neighbors xi ei (dilation args)
          = xi # neighbors (xi + dilation args) ei (dilation args)"
        using True D by (rule neighbors_Cons)
      have "exec args (xi_prog args vo ei xi ao acc rest) (m, l)
          = exec args (xi_prog args vo ei (xi + dilation args) (ao + 1)
              (acc + m (weights args + ao) * m (values' args + (vo + xi * values_stride_2 args)))
              rest)
              (m, l @ [Read Weights ao, Read Values (vo + xi * values_stride_2 args)])"
        using True ok by (subst xi_prog.simps) (simp add: base_def)
      also have "\<dots> = (case xi_loop m args vo ei (xi + dilation args) (ao + 1)
              (acc + m (weights args + ao) * m (values' args + (vo + xi * values_stride_2 args))) of
            None \<Rightarrow> None
          | Some v \<Rightarrow> exec args (rest v)
              (m, (l @ [Read Weights ao, Read Values (vo + xi * values_stride_2 args)])
                  @ xi_log args vo (ao + 1) (neighbors (xi + dilation args) ei (dilation args))))"
        using True ok by (intro "1.IH"[OF True refl refl refl]) auto
      finally show ?thesis
        using True ok by (simp add: xi_loop_step ns split: option.split)
    qed
  qed
qed

lemma exec_d_prog:
  fixes m :: "('a::{zero,plus,times}) heap"
  shows "exec args (d_prog args (window_start gws args i) (window_end gws gwe args i) b h i d rest)
           (m, l) =
     (case d_body args (window_start gws args i) (window_end gws gwe args i) b h i d m of
        None \<Rightarrow> None
      | Some m' \<Rightarrow> exec args rest (m', l @ cell_log gws gwe args b h i d))"
  by (simp add: d_prog_def d_body_def exec_xi_prog cell_log_def window_def linearIndex_def
      base_def Let_def split: option.split)

lemma exec_for_prog:
  assumes "\<And>k rest m l. lo \<le> k \<Longrightarrow> k < hi \<Longrightarrow>
      exec args (body k rest) (m, l) =
        (case step k m of None \<Rightarrow> None | Some m' \<Rightarrow> exec args rest (m', l @ A k))"
  shows "exec args (for_prog lo hi body rest) (m, l) =
     (case for_range lo hi step m of
        None \<Rightarrow> None
      | Some m' \<Rightarrow> exec args rest (m', l @ concat (map A [lo..hi - 1])))"
  using assms
proof (induction "nat (hi - lo)" arbitrary: lo m l)
  case 0
  then have "\<not> lo < hi" by simp
  then show ?case
    by (subst for_prog.simps) (simp add: for_range_done)
next
  case (Suc n)
  then have lt: "lo < hi" by linarith
  have n: "n = nat (hi - (lo + 1))" using Suc.hyps(2) by linarith
  have up: "[lo..hi - 1] = lo # [lo + 1..hi - 1]" using lt by (simp add: upto_rec1)
  have ih: "exec args (for_prog (lo + 1) hi body rest) (m', l') =
     (case for_range (lo + 1) hi step m' of
        None \<Rightarrow> None
      | Some m'' \<Rightarrow> exec args rest (m'', l' @ concat (map A [lo + 1..hi - 1])))" for m' l'
    using Suc.prems by (intro Suc.hyps(1)[OF n]) auto
  have "exec args (for_prog lo hi body rest) (m, l)
      = exec args (body lo (for_prog (lo + 1) hi body rest)) (m, l)"
    using lt by (subst for_prog.simps) simp
  also have "\<dots> = (case step lo m of None \<Rightarrow> None
      | Some m' \<Rightarrow> exec args (for_prog (lo + 1) hi body rest) (m', l @ A lo))"
    using lt by (intro Suc.prems) auto
  finally show ?case
    using lt by (simp add: ih for_range_step up split: option.split)
qed

lemma lift_for_range:
  assumes "\<And>k m l. lo \<le> k \<Longrightarrow> k < hi \<Longrightarrow>
      body' k (m, l) = (case body k m of None \<Rightarrow> None | Some m' \<Rightarrow> Some (m', l @ A k))"
  shows "for_range lo hi body' (m, l) =
     (case for_range lo hi body m of
        None \<Rightarrow> None
      | Some m' \<Rightarrow> Some (m', l @ concat (map A [lo..hi - 1])))"
  using assms
proof (induction "nat (hi - lo)" arbitrary: lo m l)
  case 0
  then have "\<not> lo < hi" by simp
  then show ?case by (simp add: for_range_done)
next
  case (Suc n)
  then have lt: "lo < hi" by linarith
  have n: "n = nat (hi - (lo + 1))" using Suc.hyps(2) by linarith
  have up: "[lo..hi - 1] = lo # [lo + 1..hi - 1]" using lt by (simp add: upto_rec1)
  have ih: "for_range (lo + 1) hi body' (m', l') =
     (case for_range (lo + 1) hi body m' of
        None \<Rightarrow> None
      | Some m'' \<Rightarrow> Some (m'', l' @ concat (map A [lo + 1..hi - 1])))" for m' l'
    using Suc.prems by (intro Suc.hyps(1)[OF n]) auto
  have first: "body' lo (m, l) = (case body lo m of None \<Rightarrow> None | Some m' \<Rightarrow> Some (m', l @ A lo))"
    using lt by (intro Suc.prems) auto
  show ?case
    using lt by (simp add: for_range_step[of lo hi] first ih up split: option.split)
qed

lemma lift_run_chunks:
  assumes "\<And>s e m l. (s, e) \<in> set cs \<Longrightarrow>
      f' s e (m, l) = (case f s e m of None \<Rightarrow> None | Some m' \<Rightarrow> Some (m', l @ A s e))"
  shows "run_chunks cs f' (m, l) =
     (case run_chunks cs f m of
        None \<Rightarrow> None
      | Some m' \<Rightarrow> Some (m', l @ concat (map (\<lambda>(s, e). A s e) cs)))"
  using assms
proof (induction cs arbitrary: m l)
  case Nil
  show ?case by simp
next
  case (Cons c cs)
  obtain s e where c: "c = (s, e)" by (cases c)
  have ih: "run_chunks cs f' (m', l') =
     (case run_chunks cs f m' of
        None \<Rightarrow> None
      | Some m'' \<Rightarrow> Some (m'', l' @ concat (map (\<lambda>(s, e). A s e) cs)))" for m' l'
    using Cons.prems by (intro Cons.IH) auto
  have first: "f' s e (m, l) = (case f s e m of None \<Rightarrow> None | Some m' \<Rightarrow> Some (m', l @ A s e))"
    using Cons.prems c by simp
  show ?case
    by (simp add: c first ih split: option.split)
qed

lemma exec_task_prog:
  fixes m :: "('a::{zero,plus,times}) heap"
  shows "exec args (task_prog gws gwe args b start end') (m, l) =
     (case task gws gwe args b start end' m of
        None \<Rightarrow> None
      | Some m' \<Rightarrow> Some (m', l @ concat (map (head_log gws gwe args b) [start..end' - 1])))"
proof -
  have row: "exec args (i_prog gws gwe args b h i rest) (m, l) =
     (case i_body gws gwe args b h i m of
        None \<Rightarrow> None
      | Some m' \<Rightarrow> exec args rest
          (m', l @ concat (map (cell_log gws gwe args b h i) [0..dim args - 1])))"
    for h i rest l and m :: "'a heap"
  proof -
    have "exec args (for_prog 0 (dim args)
              (d_prog args (window_start gws args i) (window_end gws gwe args i) b h i) rest) (m, l) =
       (case for_range 0 (dim args)
               (d_body args (window_start gws args i) (window_end gws gwe args i) b h i) m of
          None \<Rightarrow> None
        | Some m' \<Rightarrow> exec args rest
            (m', l @ concat (map (cell_log gws gwe args b h i) [0..dim args - 1])))"
      by (rule exec_for_prog) (rule exec_d_prog)
    then show ?thesis
      by (simp add: i_prog_def i_body_def window_start_def window_end_def Let_def)
  qed
  have head: "exec args (for_prog 0 (length' args) (i_prog gws gwe args b h) rest) (m, l) =
     (case for_range 0 (length' args) (i_body gws gwe args b h) m of
        None \<Rightarrow> None
      | Some m' \<Rightarrow> exec args rest (m', l @ head_log gws gwe args b h))"
    for h rest l and m :: "'a heap"
    unfolding head_log_def by (rule exec_for_prog) (rule row)
  have "exec args (for_prog start end'
            (\<lambda>h. for_prog 0 (length' args) (i_prog gws gwe args b h)) Done) (m, l) =
     (case for_range start end' (\<lambda>h. for_range 0 (length' args) (i_body gws gwe args b h)) m of
        None \<Rightarrow> None
      | Some m' \<Rightarrow> exec args Done
          (m', l @ concat (map (head_log gws gwe args b) [start..end' - 1])))"
    by (rule exec_for_prog) (rule head)
  then show ?thesis
    by (simp add: task_prog_def task_def split: option.split)
qed

lemma heads_of_concat:
  "concat (map (\<lambda>(s, e). concat (map F [s..e - 1])) cs) = concat (map F (heads_of cs))"
  by (induction cs) (auto simp: heads_of_def)

lemma launch_traced_launch:
  fixes m :: "('a::{zero,plus,times}) heap"
  shows "launch_traced sched gws gwe args (m, l) =
     (case launch sched gws gwe args m of
        None \<Rightarrow> None
      | Some m' \<Rightarrow> Some (m', l @ launch_log sched gws gwe args))"
proof -
  have batch: "parallel_for (sched b) 0 (heads args) GRAIN_SIZE
        (\<lambda>start end'. exec args (task_prog gws gwe args b start end')) (m, l) =
     (case parallel_for (sched b) 0 (heads args) GRAIN_SIZE (task gws gwe args b) m of
        None \<Rightarrow> None
      | Some m' \<Rightarrow> Some (m', l @ (if heads args \<le> 0 then []
           else concat (map (head_log gws gwe args b)
                  (heads_of (sched b 0 (heads args) GRAIN_SIZE))))))"
    for b l and m :: "'a heap"
  proof (cases "heads args \<le> 0")
    case True
    then show ?thesis by (simp add: parallel_for_def)
  next
    case False
    have "run_chunks (sched b 0 (heads args) GRAIN_SIZE)
          (\<lambda>start end'. exec args (task_prog gws gwe args b start end')) (m, l) =
       (case run_chunks (sched b 0 (heads args) GRAIN_SIZE) (task gws gwe args b) m of
          None \<Rightarrow> None
        | Some m' \<Rightarrow> Some (m', l @ concat (map (\<lambda>(s, e).
              concat (map (head_log gws gwe args b) [s..e - 1]))
              (sched b 0 (heads args) GRAIN_SIZE))))"
      by (rule lift_run_chunks) (rule exec_task_prog)
    then show ?thesis
      using False by (simp add: parallel_for_def heads_of_concat split: option.split)
  qed
  have "for_range 0 (batch_size args)
       (\<lambda>b. parallel_for (sched b) 0 (heads args) GRAIN_SIZE
              (\<lambda>start end'. exec args (task_prog gws gwe args b start end'))) (m, l) =
     (case for_range 0 (batch_size args)
        (\<lambda>b. parallel_for (sched b) 0 (heads args) GRAIN_SIZE (task gws gwe args b)) m of
        None \<Rightarrow> None
      | Some m' \<Rightarrow> Some (m', l @ concat (map (\<lambda>b. if heads args \<le> 0 then []
           else concat (map (head_log gws gwe args b)
                  (heads_of (sched b 0 (heads args) GRAIN_SIZE))))
           [0..batch_size args - 1])))"
    by (rule lift_for_range) (rule batch)
  then show ?thesis
    by (simp add: launch_traced_def launch_def launch_log_def split: option.split)
qed

lemma for_range_returns:
  assumes "\<And>k s. lo \<le> k \<Longrightarrow> k < hi \<Longrightarrow> \<exists>s'. body k s = Some s'"
  shows "\<exists>s'. for_range lo hi body s = Some s'"
  using assms
proof (induction "nat (hi - lo)" arbitrary: lo s)
  case 0
  then have "\<not> lo < hi" by simp
  then show ?case by (simp add: for_range_done)
next
  case (Suc n)
  then have lt: "lo < hi" by linarith
  have n: "n = nat (hi - (lo + 1))" using Suc.hyps(2) by linarith
  obtain s1 where s1: "body lo s = Some s1" using Suc.prems[of lo s] lt by auto
  have "\<exists>s'. for_range (lo + 1) hi body s1 = Some s'"
    using Suc.prems by (intro Suc.hyps(1)[OF n]) auto
  then show ?case using lt s1 by (simp add: for_range_step[of lo hi])
qed

lemma run_chunks_returns:
  assumes "\<And>s e m. (s, e) \<in> set cs \<Longrightarrow> \<exists>m'. f s e m = Some m'"
  shows "\<exists>m'. run_chunks cs f m = Some m'"
  using assms
proof (induction cs arbitrary: m)
  case Nil
  show ?case by simp
next
  case (Cons c cs)
  obtain s e where c: "c = (s, e)" by (cases c)
  obtain m1 where m1: "f s e m = Some m1" using Cons.prems[of s e m] c by auto
  have "\<exists>m'. run_chunks cs f m1 = Some m'" using Cons.prems by (intro Cons.IH) auto
  then show ?case using c m1 by simp
qed

lemma launch_returns:
  fixes mem :: "('a::{zero,plus,times}) heap"
  assumes "0 < dilation args" "counter_fits gws gwe args"
  shows "\<exists>mem'. launch sched gws gwe args mem = Some mem'"
proof -
  have row: "\<exists>m'. i_body gws gwe args b h i m = Some m'"
    if "0 \<le> i" "i < length' args" for b h i and m :: "'a heap"
  proof -
    have fits: "\<forall>x\<in>set (window gws gwe args i). x + dilation args \<le> INT32_MAX"
      using assms(2) that by (simp add: counter_fits_def)
    have "\<exists>m'. for_range 0 (dim args)
        (d_body args (window_start gws args i) (window_end gws gwe args i) b h i) m = Some m'"
      by (rule for_range_returns)
         (simp add: d_body_def Let_def xi_loop_aggregate[OF assms(1) fits])
    then show ?thesis
      by (simp add: i_body_def window_start_def window_end_def Let_def)
  qed
  have tsk: "\<exists>m'. task gws gwe args b s e m = Some m'" for b s e and m :: "'a heap"
    unfolding task_def
    by (rule for_range_returns) (rule for_range_returns, rule row)
  have "\<exists>m'. parallel_for (sched b) 0 (heads args) GRAIN_SIZE (task gws gwe args b) m = Some m'"
    for b and m :: "'a heap"
    using run_chunks_returns[of "sched b 0 (heads args) GRAIN_SIZE" "task gws gwe args b" m] tsk
    by (simp add: parallel_for_def)
  then show ?thesis
    unfolding launch_def by (intro for_range_returns) auto
qed

lemma writes_of_append [simp]: "writes_of (xs @ ys) = writes_of xs @ writes_of ys"
  by (induction xs rule: writes_of.induct) simp_all

lemma writes_of_concat: "writes_of (concat xss) = concat (map writes_of xss)"
  by (induction xss) simp_all

lemma writes_of_xi_log [simp]: "writes_of (xi_log args vo ao ns) = []"
  by (induction ns arbitrary: ao) simp_all

lemma writes_of_cell_log:
  "writes_of (cell_log gws gwe args b h i d) = [(Output, linearIndex args b h i d)]"
  by (simp add: cell_log_def)

lemma Read_Values_xi_log:
  "Read Values idx \<in> set (xi_log args vo ao ns)
     \<longleftrightarrow> (\<exists>x\<in>set ns. idx = vo + x * values_stride_2 args)"
  by (induction ns arbitrary: ao) auto

lemma Read_Values_cell_log:
  "Read Values idx \<in> set (cell_log gws gwe args b h i d)
     \<longleftrightarrow> (\<exists>x\<in>set (window gws gwe args i).
            idx = b * values_stride_0 args + h * values_stride_1 args + d + x * values_stride_2 args)"
  by (simp add: cell_log_def Read_Values_xi_log)

lemma upto_set_less: "set [0..n - 1] = {0..<n::int}"
  by auto

lemma Read_Values_launch_log:
  assumes "fair sched args"
  shows "Read Values idx \<in> set (launch_log sched gws gwe args)
     \<longleftrightarrow> (\<exists>b\<in>{0..<batch_size args}. \<exists>h\<in>{0..<heads args}. \<exists>i\<in>{0..<length' args}.
            \<exists>d\<in>{0..<dim args}. \<exists>x\<in>set (window gws gwe args i).
            idx = b * values_stride_0 args + h * values_stride_1 args + d + x * values_stride_2 args)"
proof -
  have hs: "set (heads_of (sched b 0 (heads args) GRAIN_SIZE)) = {0..<heads args}"
    if "b \<in> {0..<batch_size args}" for b
    using assms that by (simp add: fair_def partition_of_def)
  have e: "{0..<heads args} = {}" if "heads args \<le> 0" using that by simp
  show ?thesis
    unfolding launch_log_def head_log_def
    by (auto simp add: upto_set_less hs e Read_Values_cell_log simp del: set_upto)
qed

lemma distinct_concat_map:
  assumes "distinct xs" "\<And>x. x \<in> set xs \<Longrightarrow> distinct (f x)"
    and "\<And>x y. x \<in> set xs \<Longrightarrow> y \<in> set xs \<Longrightarrow> x \<noteq> y \<Longrightarrow> set (f x) \<inter> set (f y) = {}"
  shows "distinct (concat (map f xs))"
  using assms
proof (induction xs)
  case Nil
  show ?case by simp
next
  case (Cons x xs)
  have "distinct (concat (map f xs))" using Cons.prems by (intro Cons.IH) auto
  moreover have "distinct (f x)" using Cons.prems(2) by simp
  moreover have "set (f x) \<inter> set (f y) = {}" if "y \<in> set xs" for y
    using Cons.prems(1) Cons.prems(3)[of x y] that by auto
  ultimately show ?case by auto
qed

lemma writes_of_head_log:
  "writes_of (head_log gws gwe args b h) = head_writes args b h"
  by (simp add: head_log_def head_writes_def writes_of_concat writes_of_cell_log
      map_concat comp_def)

lemma set_head_writes:
  "set (head_writes args b h) =
     (\<Union>i\<in>{0..<length' args}. \<Union>d\<in>{0..<dim args}. {(Output, linearIndex args b h i d)})"
  unfolding head_writes_def by (auto simp add: upto_set_less simp del: set_upto)

lemma distinct_head_writes:
  assumes "0 \<le> h" "h < heads args"
  shows "distinct (head_writes args b h)"
  unfolding head_writes_def
proof (rule distinct_concat_map)
  show "distinct [0..length' args - 1]" by simp
next
  fix i
  show "distinct (map (\<lambda>d. (Output, linearIndex args b h i d)) [0..dim args - 1])"
    by (simp add: distinct_map inj_on_def linearIndex_def)
next
  fix i i'
  assume "i \<in> set [0..length' args - 1]" "i' \<in> set [0..length' args - 1]" "i \<noteq> i'"
  then have i: "0 \<le> i" "i < length' args" "0 \<le> i'" "i' < length' args" "i \<noteq> i'" by auto
  show "set (map (\<lambda>d. (Output, linearIndex args b h i d)) [0..dim args - 1])
      \<inter> set (map (\<lambda>d. (Output, linearIndex args b h i' d)) [0..dim args - 1]) = {}"
  proof (rule ccontr)
    assume "\<not> ?thesis"
    then obtain d d' where "0 \<le> d" "d < dim args" "0 \<le> d'" "d' < dim args"
      "linearIndex args b h i d = linearIndex args b h i' d'"
      by auto
    then have "i = i'"
      using linearIndex_inj[where args=args and b=b and b'=b and h=h and h'=h and i=i and i'=i' and d=d and d'=d'] assms i by simp
    then show False using i(5) by simp
  qed
qed

lemma distinct_launch_writes:
  assumes "fair sched args"
  shows "distinct (writes_of (launch_log sched gws gwe args))"
proof -
  have eq: "writes_of (launch_log sched gws gwe args) =
      concat (map (\<lambda>b. if heads args \<le> 0 then []
                       else concat (map (head_writes args b)
                              (heads_of (sched b 0 (heads args) GRAIN_SIZE))))
               [0..batch_size args - 1])"
    by (simp add: launch_log_def writes_of_concat comp_def writes_of_head_log
        if_distrib[of writes_of] cong: if_cong)
  have part: "distinct (heads_of (sched b 0 (heads args) GRAIN_SIZE))"
      "set (heads_of (sched b 0 (heads args) GRAIN_SIZE)) = {0..<heads args}"
    if "b \<in> set [0..batch_size args - 1]" for b
    using assms that by (auto simp: fair_def partition_of_def)
  have batch: "distinct (concat (map (head_writes args b)
                  (heads_of (sched b 0 (heads args) GRAIN_SIZE))))"
    if b: "b \<in> set [0..batch_size args - 1]" for b
  proof (rule distinct_concat_map)
    show "distinct (heads_of (sched b 0 (heads args) GRAIN_SIZE))" using part(1)[OF b] .
  next
    fix h assume "h \<in> set (heads_of (sched b 0 (heads args) GRAIN_SIZE))"
    then show "distinct (head_writes args b h)"
      using part(2)[OF b] by (intro distinct_head_writes) auto
  next
    fix h h'
    assume "h \<in> set (heads_of (sched b 0 (heads args) GRAIN_SIZE))"
      "h' \<in> set (heads_of (sched b 0 (heads args) GRAIN_SIZE))" "h \<noteq> h'"
    then have h: "0 \<le> h" "h < heads args" "0 \<le> h'" "h' < heads args" "h \<noteq> h'"
      using part(2)[OF b] by auto
    show "set (head_writes args b h) \<inter> set (head_writes args b h') = {}"
    proof (rule ccontr)
      assume "\<not> ?thesis"
      then obtain i d i' d' where "0 \<le> i" "i < length' args" "0 \<le> d" "d < dim args"
        "0 \<le> i'" "i' < length' args" "0 \<le> d'" "d' < dim args"
        "linearIndex args b h i d = linearIndex args b h' i' d'"
        by (auto simp: set_head_writes)
      then have "h = h'"
        using linearIndex_inj[where args=args and b=b and b'=b and h=h and h'=h' and i=i and i'=i' and d=d and d'=d'] h by simp
      then show False using h(5) by simp
    qed
  qed
  show ?thesis
    unfolding eq
  proof (rule distinct_concat_map)
    show "distinct [0..batch_size args - 1]" by simp
  next
    fix b assume "b \<in> set [0..batch_size args - 1]"
    then show "distinct (if heads args \<le> 0 then []
        else concat (map (head_writes args b) (heads_of (sched b 0 (heads args) GRAIN_SIZE))))"
      using batch by simp
  next
    fix b b'
    assume b: "b \<in> set [0..batch_size args - 1]" "b' \<in> set [0..batch_size args - 1]" "b \<noteq> b'"
    show "set (if heads args \<le> 0 then []
              else concat (map (head_writes args b) (heads_of (sched b 0 (heads args) GRAIN_SIZE))))
        \<inter> set (if heads args \<le> 0 then []
              else concat (map (head_writes args b') (heads_of (sched b' 0 (heads args) GRAIN_SIZE))))
        = {}"
    proof (rule ccontr)
      assume "\<not> ?thesis"
      then obtain h i d h' i' d' where "0 \<le> h" "h < heads args" "0 \<le> h'" "h' < heads args"
        "0 \<le> i" "i < length' args" "0 \<le> d" "d < dim args"
        "0 \<le> i'" "i' < length' args" "0 \<le> d'" "d' < dim args"
        "linearIndex args b h i d = linearIndex args b' h' i' d'"
        using part(2)[OF b(1)] part(2)[OF b(2)]
        by (auto simp: set_head_writes split: if_splits)
      then have "b = b'"
        using linearIndex_inj[where args=args and b=b and b'=b' and h=h and h'=h' and i=i and i'=i' and d=d and d'=d'] by simp
      then show False using b(3) by simp
    qed
  qed
qed

lemma offsets_cells:
  assumes "0 < heads args" "0 < length' args" "0 < dim args"
  shows "(\<Union>b\<in>{0..<batch_size args}. \<Union>h\<in>{0..<heads args}. \<Union>i\<in>{0..<length' args}.
           \<Union>d\<in>{0..<dim args}. {linearIndex args b h i d}) = {0..<numel args}"
proof -
  have "(\<Union>b\<in>{0..<batch_size (args\<lparr>output' := 0\<rparr>)}. \<Union>h\<in>{0..<heads (args\<lparr>output' := 0\<rparr>)}.
           \<Union>i\<in>{0..<length' (args\<lparr>output' := 0\<rparr>)}. \<Union>d\<in>{0..<dim (args\<lparr>output' := 0\<rparr>)}.
           {output' (args\<lparr>output' := 0\<rparr>) + linearIndex (args\<lparr>output' := 0\<rparr>) b h i d})
      = out_region (args\<lparr>output' := 0\<rparr>)"
    using assms by (intro out_region_cells) auto
  then show ?thesis
    by (simp add: out_region_def numel_def linearIndex_def values_stride_0_def
        values_stride_1_def values_stride_2_def)
qed

lemma set_launch_writes:
  assumes "validated args" "fair sched args"
  shows "set (writes_of (launch_log sched gws gwe args)) = {Output} \<times> {0..<numel args}"
proof -
  have pos: "0 < heads args" "0 < length' args" "0 < dim args"
    using assms(1) by (auto simp: validated_def)
  have hs: "set (heads_of (sched b 0 (heads args) GRAIN_SIZE)) = {0..<heads args}"
    if "b \<in> {0..<batch_size args}" for b
    using assms(2) that by (simp add: fair_def partition_of_def)
  have "set (writes_of (launch_log sched gws gwe args)) =
      (\<Union>b\<in>{0..<batch_size args}. \<Union>h\<in>{0..<heads args}. \<Union>i\<in>{0..<length' args}.
           \<Union>d\<in>{0..<dim args}. {(Output, linearIndex args b h i d)})"
    using pos(1)
    by (simp add: launch_log_def writes_of_concat comp_def writes_of_head_log
        set_head_writes upto_set_less hs del: set_upto)
  also have "\<dots> = {Output} \<times> (\<Union>b\<in>{0..<batch_size args}. \<Union>h\<in>{0..<heads args}.
      \<Union>i\<in>{0..<length' args}. \<Union>d\<in>{0..<dim args}. {linearIndex args b h i d})"
    by auto
  finally show ?thesis by (simp add: offsets_cells[OF pos])
qed

lemma big_sequential_undefined:
  "launch sequential get_window_start get_window_end big_args (mem :: int heap) = None"
  by (simp add: kernel_eval sequential_def big_args_def)

lemma big_reversed_undefined:
  "launch reversed get_window_start get_window_end big_args (mem :: int heap) = None"
  by (simp add: kernel_eval reversed_def big_args_def)

text \<open>
  C6 (amended): for every validated input on which the counter \<open>xi\<close> stays an
  \<^verbatim>\<open>int32_t\<close>, and every schedule that partitions the heads, the call returns; the
  values it reads are exactly the elements \<open>valuesOffset + x * values_stride_2\<close> for the
  neighbors \<open>x\<close> of the windows; every such neighbor lies in \<open>[0, length)\<close>; and every
  index at which the kernel reads the values lies inside the values buffer.
\<close>

theorem kernel_reads_in_bounds:
  fixes mem :: "('a::{zero,plus,times}) heap"
  assumes "validated args" "counter_fits get_window_start get_window_end args"
    and "fair sched args"
  shows "\<exists>mem' log.
      launch_traced sched get_window_start get_window_end args (mem, []) = Some (mem', log)
    \<and> (\<forall>idx. Read Values idx \<in> set log \<longrightarrow> 0 \<le> idx \<and> idx < numel args)
    \<and> (\<forall>idx. (Read Values idx \<in> set log) =
          (\<exists>b\<in>{0..<batch_size args}. \<exists>h\<in>{0..<heads args}. \<exists>i\<in>{0..<length' args}.
             \<exists>d\<in>{0..<dim args}. \<exists>x\<in>set (window get_window_start get_window_end args i).
             idx = b * values_stride_0 args + h * values_stride_1 args + d
                   + x * values_stride_2 args))
    \<and> (\<forall>i\<in>{0..<length' args}. \<forall>x\<in>set (window get_window_start get_window_end args i).
          0 \<le> x \<and> x < length' args)"
proof -
  let ?log = "launch_log sched get_window_start get_window_end args"
  have D: "0 < dilation args" using assms(1) by (simp add: validated_def)
  obtain mem' where r: "launch sched get_window_start get_window_end args mem = Some mem'"
    using launch_returns[OF D assms(2)] by blast
  have 1: "launch_traced sched get_window_start get_window_end args (mem, []) = Some (mem', ?log)"
    by (simp add: launch_traced_launch r)
  have win: "0 \<le> x \<and> x < length' args"
    if "i \<in> {0..<length' args}" "x \<in> set (window get_window_start get_window_end args i)"
    for i x
    using that D
    by (intro window_in_bounds[of i _ "dilation args" x "kernel_size args"
          "neighborhood_size args" "is_causal args"])
       (auto simp: window_def window_start_def window_end_def)
  have 4: "\<forall>i\<in>{0..<length' args}. \<forall>x\<in>set (window get_window_start get_window_end args i).
          0 \<le> x \<and> x < length' args"
    using win by blast
  have 3: "\<forall>idx. (Read Values idx \<in> set ?log) =
          (\<exists>b\<in>{0..<batch_size args}. \<exists>h\<in>{0..<heads args}. \<exists>i\<in>{0..<length' args}.
             \<exists>d\<in>{0..<dim args}. \<exists>x\<in>set (window get_window_start get_window_end args i).
             idx = b * values_stride_0 args + h * values_stride_1 args + d
                   + x * values_stride_2 args)"
    using Read_Values_launch_log[OF assms(3)] by blast
  have 2: "\<forall>idx. Read Values idx \<in> set ?log \<longrightarrow> 0 \<le> idx \<and> idx < numel args"
  proof (intro allI impI)
    fix idx assume "Read Values idx \<in> set ?log"
    then obtain b h i d x where r: "0 \<le> b" "b < batch_size args" "0 \<le> h" "h < heads args"
      "i \<in> {0..<length' args}" "0 \<le> d" "d < dim args"
      "x \<in> set (window get_window_start get_window_end args i)"
      and idx: "idx = b * values_stride_0 args + h * values_stride_1 args + d
                   + x * values_stride_2 args"
      using 3 by auto
    have x: "0 \<le> x" "x < length' args" using win[OF r(5) r(8)] by simp_all
    have "0 \<le> linearIndex args b h x d \<and> linearIndex args b h x d < numel args"
      using r(1-4) x r(6,7) by (intro linearIndex_bound) auto
    then show "0 \<le> idx \<and> idx < numel args"
      by (simp add: idx linearIndex_def add.commute add.left_commute)
  qed
  show ?thesis
    by (intro exI[of _ mem'] exI[of _ ?log] conjI) (rule 1 2 3 4)+
qed

theorem kernel_reads_in_bounds_witness:
  "validated example_args \<and> counter_fits get_window_start get_window_end example_args
   \<and> fair sequential example_args
   \<and> (\<exists>mem' log. launch_traced sequential get_window_start get_window_end example_args
                    (\<lambda>a. a :: int, []) = Some (mem', log)
        \<and> Read Values 15 \<in> set log \<and> (0::int) \<le> 15 \<and> 15 < numel example_args)"
proof -
  obtain mem' log where
    l: "launch_traced sequential get_window_start get_window_end example_args
          (\<lambda>a. a :: int, []) = Some (mem', log)"
    and bound: "\<forall>idx. Read Values idx \<in> set log \<longrightarrow> 0 \<le> idx \<and> idx < numel example_args"
    and rd: "\<forall>idx. (Read Values idx \<in> set log) =
          (\<exists>b\<in>{0..<batch_size example_args}. \<exists>h\<in>{0..<heads example_args}.
             \<exists>i\<in>{0..<length' example_args}. \<exists>d\<in>{0..<dim example_args}.
             \<exists>x\<in>set (window get_window_start get_window_end example_args i).
             idx = b * values_stride_0 example_args + h * values_stride_1 example_args + d
                   + x * values_stride_2 example_args)"
    using kernel_reads_in_bounds[OF ex_validated ex_fits fair_sequential, of "\<lambda>a. a :: int"]
    by blast
  have w: "3 \<in> set (window get_window_start get_window_end example_args 2)"
    by (simp add: example_args_def window_eval)
  have "\<exists>b\<in>{0..<batch_size example_args}. \<exists>h\<in>{0..<heads example_args}.
             \<exists>i\<in>{0..<length' example_args}. \<exists>d\<in>{0..<dim example_args}.
             \<exists>x\<in>set (window get_window_start get_window_end example_args i).
             (15::int) = b * values_stride_0 example_args + h * values_stride_1 example_args + d
                   + x * values_stride_2 example_args"
    by (rule bexI[of _ 0], rule bexI[of _ 1], rule bexI[of _ 2], rule bexI[of _ 1],
        rule bexI[of _ 3])
       (simp_all add: w, simp_all add: example_args_def values_stride_0_def values_stride_1_def
          values_stride_2_def)
  then have r: "Read Values 15 \<in> set log" using rd by blast
  then have "(0::int) \<le> 15 \<and> 15 < numel example_args" using bound by blast
  then show ?thesis
    using ex_validated ex_fits fair_sequential[of example_args] l r by blast
qed

text \<open>
  Against C6 as stated: on the validated input with dilation \<open>2\<^sup>3\<^sup>1 - 1\<close> the
  neighbor of query position 1 is in bounds, but advancing the counter past it is a
  signed overflow: the behaviour of the kernel is undefined and no bound on its reads
  holds.
\<close>

theorem reads_undefined_on_overflow:
  "validated big_args \<and> fair sequential big_args
   \<and> window get_window_start get_window_end big_args 1 = [1]
   \<and> launch_traced sequential get_window_start get_window_end big_args (\<lambda>a. 1 :: int, []) = None"
proof -
  have w: "window get_window_start get_window_end big_args 1 = [1]"
    by (simp add: big_args_def window_eval)
  have "launch_traced sequential get_window_start get_window_end big_args (\<lambda>a. 1 :: int, []) = None"
    by (simp add: launch_traced_launch big_sequential_undefined)
  then show ?thesis using big_validated fair_sequential[of big_args] w by simp
qed

lemma sum_list_update_less:
  fixes xs :: "nat list"
  assumes "j < length xs" "xs ! j = Suc y"
  shows "Suc (sum_list (xs[j := y])) = sum_list xs"
  using assms
proof (induction xs arbitrary: j)
  case Nil
  then show ?case by simp
next
  case (Cons x xs)
  then show ?case by (cases j) auto
qed

lemma concat_update_same:
  assumes "j < length ps" "g p = g (ps ! j)"
  shows "concat (map g (ps[j := p])) = concat (map g ps)"
proof -
  have "map g (ps[j := p]) = (map g ps)[j := g (ps ! j)]"
    using assms by (simp add: map_update)
  also have "\<dots> = map g ps" using assms(1) by (simp add: list_update_same_conv)
  finally show ?thesis by simp
qed

lemma concat_update_head:
  assumes "j < length ps" "g (ps ! j) = a # g p"
  shows "set (concat (map g ps)) = insert a (set (concat (map g (ps[j := p]))))"
    and "distinct (concat (map g ps))
      \<Longrightarrow> distinct (concat (map g (ps[j := p]))) \<and> a \<notin> set (concat (map g (ps[j := p])))"
  using assms
proof (induction ps arbitrary: j)
  case Nil
  { case 1 then show ?case by simp }
  { case 2 then show ?case by simp }
next
  case (Cons q ps)
  { case 1
    show ?case
    proof (cases j)
      case 0
      then show ?thesis using 1 by auto
    next
      case (Suc k)
      then have k: "k < length ps" "g (ps ! k) = a # g p" using 1 by simp_all
      show ?thesis using Cons.IH(1)[OF k] Suc by auto
    qed }
  { case 2
    show ?case
    proof (cases j)
      case 0
      then show ?thesis using 2 by auto
    next
      case (Suc k)
      then have k: "k < length ps" "g (ps ! k) = a # g p" using 2 by simp_all
      have d: "distinct (concat (map g ps))" using 2(1) by simp
      show ?thesis using Cons.IH(2)[OF d k] Cons.IH(1)[OF k] 2(1) Suc by auto
    qed }
qed

lemma on_track_load:
  assumes W: "W \<subseteq> R" and inv: "on_track args R m0 T W minit ps m"
    and j: "j < length ps" and pj: "ps ! j = Load buf idx f"
  shows "on_track args R m0 T W minit (ps[j := f (m (base args buf + idx))]) m"
    and "Suc (total_left args m0 (ps[j := f (m (base args buf + idx))])) = total_left args m0 ps"
    and "pending args R m0 (ps[j := f (m (base args buf + idx))]) = pending args R m0 ps"
proof -
  let ?a = "base args buf + idx"
  obtain sts where sts: "stores_along args R m0 (ps ! j) = Some sts"
    using inv j by (auto simp: on_track_def)
  have out: "?a \<notin> R" using sts pj by (auto split: if_splits)
  have val: "m ?a = m0 ?a" using inv out by (simp add: on_track_def)
  have same: "stores_along args R m0 (f (m ?a)) = stores_along args R m0 (ps ! j)"
    using out val pj by simp
  have nth: "stores_along args R m0 (ps[j := f (m ?a)] ! k) = stores_along args R m0 (ps ! k)"
    if "k < length ps" for k
    using that same j by (cases "k = j") simp_all
  show "on_track args R m0 T W minit (ps[j := f (m ?a)]) m"
    using inv by (simp add: on_track_def nth cong: conj_cong)
  have "steps_left args m0 (ps ! j) = Suc (steps_left args m0 (f (m ?a)))"
    using pj val by simp
  then show "Suc (total_left args m0 (ps[j := f (m ?a)])) = total_left args m0 ps"
    using j by (simp add: total_left_def map_update sum_list_update_less)
  have "pending_of args R m0 (f (m ?a)) = pending_of args R m0 (ps ! j)"
    by (simp add: pending_of_def same)
  then show "pending args R m0 (ps[j := f (m ?a)]) = pending args R m0 ps"
    unfolding pending_def using j by (intro concat_update_same)
qed

lemma on_track_store:
  assumes W: "W \<subseteq> R" and inv: "on_track args R m0 T W minit ps m"
    and j: "j < length ps" and pj: "ps ! j = Store buf idx v p"
  shows "on_track args R m0 T W minit (ps[j := p]) (m(base args buf + idx := v))"
    and "Suc (total_left args m0 (ps[j := p])) = total_left args m0 ps"
    and "set (pending args R m0 ps) = insert (base args buf + idx) (set (pending args R m0 (ps[j := p])))"
    and "distinct (pending args R m0 ps)
      \<Longrightarrow> distinct (pending args R m0 (ps[j := p]))
        \<and> base args buf + idx \<notin> set (pending args R m0 (ps[j := p]))"
proof -
  let ?a = "base args buf + idx"
  obtain sts where sts: "stores_along args R m0 (ps ! j) = Some sts"
    and ok: "\<forall>x\<in>set sts. fst x \<in> W \<and> snd x = T (fst x)"
    using inv j by (auto simp: on_track_def)
  obtain sts' where sts': "stores_along args R m0 p = Some sts'" "sts = (?a, v) # sts'"
    using sts pj by auto
  have a: "?a \<in> W" "v = T ?a" using ok sts'(2) by auto
  have nth: "stores_along args R m0 (ps[j := p] ! k) =
      (if k = j then Some sts' else stores_along args R m0 (ps ! k))"
    if "k < length ps" for k
    using that sts'(1) by simp
  have i1: "\<forall>b. b \<notin> R \<longrightarrow> (m(?a := v)) b = m0 b"
    using inv a(1) W by (auto simp: on_track_def)
  have i2: "\<forall>k<length (ps[j := p]). \<exists>s. stores_along args R m0 (ps[j := p] ! k) = Some s
          \<and> (\<forall>x\<in>set s. fst x \<in> W \<and> snd x = T (fst x))"
  proof (intro allI impI)
    fix k assume k: "k < length (ps[j := p])"
    show "\<exists>s. stores_along args R m0 (ps[j := p] ! k) = Some s
          \<and> (\<forall>x\<in>set s. fst x \<in> W \<and> snd x = T (fst x))"
    proof (cases "k = j")
      case True
      then show ?thesis using k nth[of k] ok sts'(2) by simp
    next
      case False
      then show ?thesis using k nth[of k] inv by (simp add: on_track_def)
    qed
  qed
  have i3: "\<forall>b\<in>W. (m(?a := v)) b = T b
          \<or> (\<exists>k<length (ps[j := p]). \<exists>s. stores_along args R m0 (ps[j := p] ! k) = Some s
                \<and> b \<in> fst ` set s)"
  proof
    fix b assume b: "b \<in> W"
    show "(m(?a := v)) b = T b
          \<or> (\<exists>k<length (ps[j := p]). \<exists>s. stores_along args R m0 (ps[j := p] ! k) = Some s
                \<and> b \<in> fst ` set s)"
    proof (cases "b = ?a")
      case True
      then show ?thesis using a(2) by simp
    next
      case False
      have "m b = T b \<or> (\<exists>k<length ps. \<exists>s. stores_along args R m0 (ps ! k) = Some s
                \<and> b \<in> fst ` set s)"
        using inv b by (simp add: on_track_def)
      then show ?thesis
      proof
        assume "m b = T b"
        then show ?thesis using False by simp
      next
        assume "\<exists>k<length ps. \<exists>s. stores_along args R m0 (ps ! k) = Some s \<and> b \<in> fst ` set s"
        then obtain k s where k: "k < length ps" "stores_along args R m0 (ps ! k) = Some s"
          "b \<in> fst ` set s" by blast
        show ?thesis
        proof (cases "k = j")
          case True
          then have "s = (?a, v) # sts'" using k(2) sts sts'(2) by simp
          then have "b \<in> fst ` set sts'" using k(3) False by auto
          moreover have "stores_along args R m0 (ps[j := p] ! j) = Some sts'"
            using nth[OF j] by simp
          moreover have "j < length (ps[j := p])" using j by simp
          ultimately show ?thesis by blast
        next
          case neq: False
          then have "stores_along args R m0 (ps[j := p] ! k) = Some s"
            using nth[OF k(1)] k(2) by simp
          moreover have "k < length (ps[j := p])" using k(1) by simp
          ultimately show ?thesis using k(3) by blast
        qed
      qed
    qed
  qed
  have i4: "\<forall>b. b \<notin> W \<longrightarrow> (m(?a := v)) b = minit b"
    using inv a(1) by (auto simp: on_track_def)
  show "on_track args R m0 T W minit (ps[j := p]) (m(?a := v))"
    unfolding on_track_def using i1 i2 i3 i4 by simp
  have "steps_left args m0 (ps ! j) = Suc (steps_left args m0 p)"
    using pj by simp
  then show "Suc (total_left args m0 (ps[j := p])) = total_left args m0 ps"
    using j by (simp add: total_left_def map_update sum_list_update_less)
  have hd: "pending_of args R m0 (ps ! j) = ?a # pending_of args R m0 p"
    by (simp add: pending_of_def sts sts')
  show "set (pending args R m0 ps) = insert ?a (set (pending args R m0 (ps[j := p])))"
    unfolding pending_def using j hd by (rule concat_update_head(1))
  show "distinct (pending args R m0 (ps[j := p])) \<and> ?a \<notin> set (pending args R m0 (ps[j := p]))"
    if "distinct (pending args R m0 ps)"
    using that unfolding pending_def by (rule concat_update_head(2)[OF j hd])
qed

lemma on_track_progress:
  assumes "on_track args R m0 T W minit ps m" "\<not> (\<forall>p\<in>set ps. p = Done)"
  shows "\<exists>e c'. launch_step sched gws gwe args (Parallel b ps m) e c'"
proof -
  obtain j where j: "j < length ps" "ps ! j \<noteq> Done"
    using assms(2) by (auto simp: in_set_conv_nth)
  obtain sts where "stores_along args R m0 (ps ! j) = Some sts"
    using assms(1) j(1) by (auto simp: on_track_def)
  then have "ps ! j \<noteq> Undefined" by auto
  then consider buf idx f where "ps ! j = Load buf idx f"
    | buf idx v p where "ps ! j = Store buf idx v p"
    using j(2) by (cases "ps ! j") auto
  then show ?thesis
  proof cases
    case 1
    then show ?thesis using launch_step.load[OF j(1)] by blast
  next
    case 2
    then show ?thesis using launch_step.store[OF j(1)] by blast
  qed
qed

lemma on_track_finished:
  assumes "on_track args R m0 T W minit ps m" "\<forall>p\<in>set ps. p = Done"
  shows "m = (\<lambda>a. if a \<in> W then T a else minit a)"
    and "pending args R m0 ps = []" and "total_left args m0 ps = 0"
proof -
  have none: "stores_along args R m0 (ps ! j) = Some []" if "j < length ps" for j
    using assms(2) nth_mem[OF that] by auto
  show "m = (\<lambda>a. if a \<in> W then T a else minit a)"
  proof (rule ext)
    fix a
    show "m a = (if a \<in> W then T a else minit a)"
    proof (cases "a \<in> W")
      case True
      then have "m a = T a
          \<or> (\<exists>j<length ps. \<exists>sts. stores_along args R m0 (ps ! j) = Some sts
                \<and> a \<in> fst ` set sts)"
        using assms(1) by (simp add: on_track_def)
      then show ?thesis using True none by auto
    next
      case False
      then show ?thesis using assms(1) by (simp add: on_track_def)
    qed
  qed
  show "pending args R m0 ps = []"
    using assms(2) by (auto simp: pending_def pending_of_def)
  show "total_left args m0 ps = 0"
    using assms(2) by (auto simp: total_left_def)
qed

lemma append_Nil_fun: "map_option ((@) []) x = x"
  by (cases x) simp_all

lemma append_append_fun:
  "map_option ((@) a) (map_option ((@) b) x) = map_option ((@) (a @ b)) x"
  by (cases x) simp_all

lemma in_concat_mapI: "x \<in> set (f k) \<Longrightarrow> k \<in> set ks \<Longrightarrow> x \<in> set (concat (map f ks))"
  by auto

lemma in_concat_mapE:
  assumes "x \<in> set (concat (map f ks))"
  obtains k where "k \<in> set ks" "x \<in> set (f k)"
  using assms by auto

lemma append_single_fun: "map_option ((@) [y]) x = map_option (Cons y) x"
  by (cases x) simp_all

lemma stores_along_xi_prog:
  fixes m0 :: "('a::{zero,plus,times}) heap"
  assumes "\<forall>k<length (neighbors xi ei (dilation args)). weights args + (ao + int k) \<notin> R"
    and "\<forall>x\<in>set (neighbors xi ei (dilation args)).
           values' args + (vo + x * values_stride_2 args) \<notin> R"
  shows "stores_along args R m0 (xi_prog args vo ei xi ao acc rest) =
     (case xi_loop m0 args vo ei xi ao acc of
        None \<Rightarrow> None
      | Some v \<Rightarrow> stores_along args R m0 (rest v))"
  using assms
proof (induction m0 args vo ei xi ao acc rule: xi_loop.induct)
  case (1 m0 args vo ei xi ao acc)
  show ?case
  proof (cases "xi < ei")
    case False
    then show ?thesis
      by (subst xi_prog.simps) (simp add: xi_loop_done)
  next
    case True
    show ?thesis
    proof (cases "dilation args \<le> 0 \<or> INT32_MAX < xi + dilation args")
      case undef: True
      then show ?thesis
        using True by (subst xi_prog.simps) (simp add: xi_loop_undefined)
    next
      case ok: False
      then have D: "0 < dilation args" by simp
      have ns: "neighbors xi ei (dilation args)
          = xi # neighbors (xi + dilation args) ei (dilation args)"
        using True D by (rule neighbors_Cons)
      have w0: "weights args + ao \<notin> R" using "1.prems"(1) ns by auto
      have v0: "values' args + (vo + xi * values_stride_2 args) \<notin> R"
        using "1.prems"(2) ns by simp
      have w': "\<forall>k<length (neighbors (xi + dilation args) ei (dilation args)).
          weights args + (ao + 1 + int k) \<notin> R"
      proof (intro allI impI)
        fix k assume "k < length (neighbors (xi + dilation args) ei (dilation args))"
        then have "Suc k < length (neighbors xi ei (dilation args))" by (simp add: ns)
        then have "weights args + (ao + int (Suc k)) \<notin> R" using "1.prems"(1) by blast
        then show "weights args + (ao + 1 + int k) \<notin> R" by (simp add: algebra_simps)
      qed
      have v': "\<forall>x\<in>set (neighbors (xi + dilation args) ei (dilation args)).
           values' args + (vo + x * values_stride_2 args) \<notin> R"
        using "1.prems"(2) ns by simp
      have "stores_along args R m0 (xi_prog args vo ei xi ao acc rest)
          = stores_along args R m0 (xi_prog args vo ei (xi + dilation args) (ao + 1)
              (acc + m0 (weights args + ao) * m0 (values' args + (vo + xi * values_stride_2 args)))
              rest)"
        using True ok w0 v0 by (subst xi_prog.simps) (simp add: base_def)
      also have "\<dots> = (case xi_loop m0 args vo ei (xi + dilation args) (ao + 1)
              (acc + m0 (weights args + ao) * m0 (values' args + (vo + xi * values_stride_2 args))) of
            None \<Rightarrow> None
          | Some v \<Rightarrow> stores_along args R m0 (rest v))"
        using True ok w' v' by (intro "1.IH"[OF True refl refl refl]) auto
      finally show ?thesis
        using True ok by (simp add: xi_loop_step)
    qed
  qed
qed

lemma stores_along_d_prog:
  fixes m0 :: "('a::{zero,plus,times}) heap"
  assumes dil: "0 < dilation args"
    and fits: "\<forall>x\<in>set (window gws gwe args i). x + dilation args \<le> INT32_MAX"
    and sep: "\<forall>a\<in>set (reads gws gwe args b h i d). a \<notin> R"
  shows "stores_along args R m0
           (d_prog args (window_start gws args i) (window_end gws gwe args i) b h i d rest) =
     map_option (Cons (output' args + linearIndex args b h i d,
                       aggregate m0 args b h i d (window gws gwe args i)))
       (stores_along args R m0 rest)"
proof -
  have w: "\<forall>k<length (neighbors (window_start gws args i) (window_end gws gwe args i)
                (dilation args)).
      weights args + (b * weights_stride_0 args + h * weights_stride_1 args
         + i * weights_stride_2 args + int k) \<notin> R"
    using sep by (simp add: reads_def window_def attn_index_def)
  have v: "\<forall>x\<in>set (neighbors (window_start gws args i) (window_end gws gwe args i)
                (dilation args)).
      values' args + (b * values_stride_0 args + h * values_stride_1 args + d
         + x * values_stride_2 args) \<notin> R"
  proof
    fix x assume "x \<in> set (neighbors (window_start gws args i) (window_end gws gwe args i)
                (dilation args))"
    then have "values' args + linearIndex args b h x d \<notin> R"
      using sep by (simp add: reads_def window_def)
    then show "values' args + (b * values_stride_0 args + h * values_stride_1 args + d
         + x * values_stride_2 args) \<notin> R"
      by (simp add: linearIndex_def add.commute add.left_commute)
  qed
  show ?thesis
    unfolding d_prog_def
    by (simp add: stores_along_xi_prog[OF w v] xi_loop_aggregate[OF dil fits] base_def
        linearIndex_def)
qed

lemma stores_along_for_prog:
  assumes "\<And>k rest. lo \<le> k \<Longrightarrow> k < hi \<Longrightarrow>
      stores_along args R m0 (body k rest) = map_option ((@) (S k)) (stores_along args R m0 rest)"
  shows "stores_along args R m0 (for_prog lo hi body rest) =
     map_option ((@) (concat (map S [lo..hi - 1]))) (stores_along args R m0 rest)"
  using assms
proof (induction "nat (hi - lo)" arbitrary: lo)
  case 0
  then have "\<not> lo < hi" by simp
  then show ?case
    by (subst for_prog.simps) (simp add: append_Nil_fun)
next
  case (Suc n)
  then have lt: "lo < hi" by linarith
  have n: "n = nat (hi - (lo + 1))" using Suc.hyps(2) by linarith
  have up: "[lo..hi - 1] = lo # [lo + 1..hi - 1]" using lt by (simp add: upto_rec1)
  have ih: "stores_along args R m0 (for_prog (lo + 1) hi body rest) =
      map_option ((@) (concat (map S [lo + 1..hi - 1]))) (stores_along args R m0 rest)"
    using Suc.prems by (intro Suc.hyps(1)[OF n]) auto
  have "stores_along args R m0 (for_prog lo hi body rest)
      = stores_along args R m0 (body lo (for_prog (lo + 1) hi body rest))"
    using lt by (subst for_prog.simps) simp
  also have "\<dots> = map_option ((@) (S lo))
      (stores_along args R m0 (for_prog (lo + 1) hi body rest))"
    using lt by (intro Suc.prems) auto
  finally show ?case
    by (simp add: ih up append_append_fun)
qed

lemma stores_along_task_prog:
  fixes m0 :: "('a::{zero,plus,times}) heap"
  assumes dil: "0 < dilation args"
    and fits: "counter_fits gws gwe args"
    and sep: "no_alias gws gwe args"
    and rng: "0 \<le> b" "b < batch_size args" "start < end' \<longrightarrow> 0 \<le> start \<and> end' \<le> heads args"
  shows "stores_along args (out_region args) m0 (task_prog gws gwe args b start end') =
     Some (concat (map (head_stores gws gwe args m0 b) [start..end' - 1]))"
proof -
  have row: "stores_along args (out_region args) m0 (i_prog gws gwe args b h i rest) =
      map_option ((@) (map (\<lambda>d. (output' args + linearIndex args b h i d,
                                 aggregate m0 args b h i d (window gws gwe args i)))
                       [0..dim args - 1]))
        (stores_along args (out_region args) m0 rest)"
    if h: "0 \<le> h" "h < heads args" and i: "0 \<le> i" "i < length' args" for h i rest
  proof -
    have fits': "\<forall>x\<in>set (window gws gwe args i). x + dilation args \<le> INT32_MAX"
      using fits i by (simp add: counter_fits_def)
    have "stores_along args (out_region args) m0
        (for_prog 0 (dim args)
           (d_prog args (window_start gws args i) (window_end gws gwe args i) b h i) rest) =
      map_option ((@) (concat (map (\<lambda>d. [(output' args + linearIndex args b h i d,
                                 aggregate m0 args b h i d (window gws gwe args i))])
                       [0..dim args - 1])))
        (stores_along args (out_region args) m0 rest)"
    proof (rule stores_along_for_prog)
      fix d rest' assume d: "0 \<le> d" "d < dim args"
      have "\<forall>a\<in>set (reads gws gwe args b h i d). a \<notin> out_region args"
        using sep rng h i d by (simp add: no_alias_def)
      then show "stores_along args (out_region args) m0
          (d_prog args (window_start gws args i) (window_end gws gwe args i) b h i d rest') =
        map_option ((@) [(output' args + linearIndex args b h i d,
                          aggregate m0 args b h i d (window gws gwe args i))])
          (stores_along args (out_region args) m0 rest')"
        by (simp add: stores_along_d_prog[OF dil fits'] append_single_fun)
    qed
    then show ?thesis
      by (simp add: i_prog_def window_start_def window_end_def Let_def concat_map_singleton)
  qed
  have head: "stores_along args (out_region args) m0
        (for_prog 0 (length' args) (i_prog gws gwe args b h) rest) =
      map_option ((@) (head_stores gws gwe args m0 b h))
        (stores_along args (out_region args) m0 rest)"
    if h: "0 \<le> h" "h < heads args" for h rest
    unfolding head_stores_def
    by (rule stores_along_for_prog) (rule row[OF h])
  have "stores_along args (out_region args) m0
      (for_prog start end' (\<lambda>h. for_prog 0 (length' args) (i_prog gws gwe args b h)) Done) =
     map_option ((@) (concat (map (head_stores gws gwe args m0 b) [start..end' - 1])))
       (stores_along args (out_region args) m0 Done)"
  proof (rule stores_along_for_prog)
    fix h rest assume "start \<le> h" "h < end'"
    then have "0 \<le> h" "h < heads args" using rng(3) by auto
    then show "stores_along args (out_region args) m0
        (for_prog 0 (length' args) (i_prog gws gwe args b h) rest) =
      map_option ((@) (head_stores gws gwe args m0 b h))
        (stores_along args (out_region args) m0 rest)"
      by (rule head)
  qed
  then show ?thesis by (simp add: task_prog_def)
qed

lemma head_stores_sound:
  assumes "x \<in> set (head_stores gws gwe args m0 b h)" "0 \<le> h" "h < heads args"
  shows "fst x \<in> head_cells args b h \<and> snd x = expected gws gwe args m0 (fst x)"
proof -
  obtain i d where r: "0 \<le> i" "i < length' args" "0 \<le> d" "d < dim args"
    and x: "x = (output' args + linearIndex args b h i d,
                 aggregate m0 args b h i d (window gws gwe args i))"
    using assms(1) unfolding head_stores_def by (elim in_concat_mapE) auto
  have "cell_of args (linearIndex args b h i d) = (b, h, i, d)"
    using assms(2,3) r by (intro cell_of_linearIndex) auto
  then have "snd x = expected gws gwe args m0 (fst x)"
    by (simp add: x expected_def)
  moreover have "fst x \<in> head_cells args b h"
    unfolding x head_cells_def row_cells_def using r
    by (intro UN_I[of i] UN_I[of d]) auto
  ultimately show ?thesis by simp
qed

lemma head_stores_complete:
  assumes "a \<in> head_cells args b h"
  shows "a \<in> fst ` set (head_stores gws gwe args m0 b h)"
proof -
  obtain i d where r: "0 \<le> i" "i < length' args" "0 \<le> d" "d < dim args"
    and a: "a = output' args + linearIndex args b h i d"
    using assms by (auto simp: head_cells_def row_cells_def)
  have "(a, aggregate m0 args b h i d (window gws gwe args i))
      \<in> set (head_stores gws gwe args m0 b h)"
    unfolding a head_stores_def using r
    by (intro in_concat_mapI[of _ _ i]) auto
  then show ?thesis by force
qed

lemma chunk_in_range:
  assumes "partition_of 0 H cs" "(s, e) \<in> set cs" "s < e"
  shows "0 \<le> s \<and> e \<le> H"
proof -
  have hs: "set (heads_of cs) = {0..<H}" using assms(1) by (simp add: partition_of_def)
  have "s \<in> set (heads_of cs)" using chunk_in_heads[OF assms(2), of s] assms(3) by simp
  moreover have "e - 1 \<in> set (heads_of cs)"
    using chunk_in_heads[OF assms(2), of "e - 1"] assms(3) by simp
  ultimately show ?thesis using hs by auto
qed

lemma tasks_stores:
  fixes m0 :: "('a::{zero,plus,times}) heap"
  assumes val: "validated args"
    and fits: "counter_fits gws gwe args"
    and sep: "no_alias gws gwe args"
    and fr: "fair sched args"
    and b: "0 \<le> b" "b < batch_size args"
  shows "length (tasks sched gws gwe args b :: 'a prog list)
       = length (sched b 0 (heads args) GRAIN_SIZE)"
    and "j < length (sched b 0 (heads args) GRAIN_SIZE) \<Longrightarrow>
      stores_along args (out_region args) m0 (tasks sched gws gwe args b ! j)
      = Some (concat (map (head_stores gws gwe args m0 b)
           [fst (sched b 0 (heads args) GRAIN_SIZE ! j)
            ..snd (sched b 0 (heads args) GRAIN_SIZE ! j) - 1]))"
proof -
  let ?cs = "sched b 0 (heads args) GRAIN_SIZE"
  have dil: "0 < dilation args" and H: "0 < heads args" using val by (auto simp: validated_def)
  have part: "partition_of 0 (heads args) ?cs" using fr b by (simp add: fair_def)
  have ts: "(tasks sched gws gwe args b :: 'a prog list)
      = map (\<lambda>(s, e). task_prog gws gwe args b s e) ?cs"
    using H by (simp add: tasks_def)
  show "length (tasks sched gws gwe args b :: 'a prog list) = length ?cs"
    by (simp add: ts)
  show "stores_along args (out_region args) m0 (tasks sched gws gwe args b ! j)
      = Some (concat (map (head_stores gws gwe args m0 b) [fst (?cs ! j)..snd (?cs ! j) - 1]))"
    if j: "j < length ?cs"
  proof -
    have "(fst (?cs ! j), snd (?cs ! j)) \<in> set ?cs" using j by simp
    then have "fst (?cs ! j) < snd (?cs ! j)
        \<longrightarrow> 0 \<le> fst (?cs ! j) \<and> snd (?cs ! j) \<le> heads args"
      using chunk_in_range[OF part] by blast
    then have "stores_along args (out_region args) m0
        (task_prog gws gwe args b (fst (?cs ! j)) (snd (?cs ! j)))
      = Some (concat (map (head_stores gws gwe args m0 b) [fst (?cs ! j)..snd (?cs ! j) - 1]))"
      using dil fits sep b by (intro stores_along_task_prog) auto
    then show ?thesis using j by (simp add: ts case_prod_beta)
  qed
qed

lemma tasks_on_track:
  fixes m0 :: "('a::{zero,plus,times}) heap"
  assumes val: "validated args"
    and fits: "counter_fits gws gwe args"
    and sep: "no_alias gws gwe args"
    and fr: "fair sched args"
    and b: "0 \<le> b" "b < batch_size args"
    and agree: "\<forall>a. a \<notin> out_region args \<longrightarrow> m a = m0 a"
  shows "on_track args (out_region args) m0 (expected gws gwe args m0) (batch_cells args b) m
           (tasks sched gws gwe args b) m"
proof -
  let ?cs = "sched b 0 (heads args) GRAIN_SIZE"
  let ?ts = "tasks sched gws gwe args b :: 'a prog list"
  have part: "partition_of 0 (heads args) ?cs" using fr b by (simp add: fair_def)
  have hs: "set (heads_of ?cs) = {0..<heads args}"
    using part by (simp add: partition_of_def)
  have len: "length ?ts = length ?cs"
    using tasks_stores(1)[OF val fits sep fr b] .
  have st: "stores_along args (out_region args) m0 (?ts ! j)
      = Some (concat (map (head_stores gws gwe args m0 b) [fst (?cs ! j)..snd (?cs ! j) - 1]))"
    if j: "j < length ?cs" for j
    using tasks_stores(2)[OF val fits sep fr b j] .
  have i2: "\<forall>j<length ?ts.
      \<exists>sts. stores_along args (out_region args) m0 (?ts ! j) = Some sts
        \<and> (\<forall>x\<in>set sts. fst x \<in> batch_cells args b
               \<and> snd x = expected gws gwe args m0 (fst x))"
  proof (intro allI impI)
    fix j assume "j < length ?ts"
    then have j: "j < length ?cs" by (simp add: len)
    have c: "(fst (?cs ! j), snd (?cs ! j)) \<in> set ?cs" using j by simp
    have "fst x \<in> batch_cells args b \<and> snd x = expected gws gwe args m0 (fst x)"
      if mem: "x \<in> set (concat (map (head_stores gws gwe args m0 b)
                      [fst (?cs ! j)..snd (?cs ! j) - 1]))" for x
    proof -
      obtain h where h0: "h \<in> set [fst (?cs ! j)..snd (?cs ! j) - 1]"
        and h3: "x \<in> set (head_stores gws gwe args m0 b h)"
        using mem by (rule in_concat_mapE)
      have h: "fst (?cs ! j) \<le> h" "h < snd (?cs ! j)"
        using h0 by auto
      have r: "0 \<le> h" "h < heads args" using chunk_in_range[OF part c] h by auto
      have "fst x \<in> head_cells args b h \<and> snd x = expected gws gwe args m0 (fst x)"
        using h3 r by (rule head_stores_sound)
      then show ?thesis using r by (auto simp: batch_cells_def)
    qed
    then show "\<exists>sts. stores_along args (out_region args) m0 (?ts ! j) = Some sts
        \<and> (\<forall>x\<in>set sts. fst x \<in> batch_cells args b
               \<and> snd x = expected gws gwe args m0 (fst x))"
      using st[OF j] by blast
  qed
  have i3: "\<forall>a\<in>batch_cells args b. m a = expected gws gwe args m0 a
      \<or> (\<exists>j<length ?ts.
           \<exists>sts. stores_along args (out_region args) m0 (?ts ! j)
                   = Some sts \<and> a \<in> fst ` set sts)"
  proof
    fix a assume "a \<in> batch_cells args b"
    then obtain h where h: "h \<in> {0..<heads args}" "a \<in> head_cells args b h"
      by (auto simp: batch_cells_def)
    then have "h \<in> set (heads_of ?cs)" using hs by simp
    then obtain s e where c: "(s, e) \<in> set ?cs" "s \<le> h" "h < e"
      by (auto simp: heads_of_def)
    then obtain j where j: "j < length ?cs" "?cs ! j = (s, e)"
      by (auto simp: in_set_conv_nth)
    have "a \<in> fst ` set (head_stores gws gwe args m0 b h)"
      using h(2) by (rule head_stores_complete)
    then obtain y where y: "y \<in> set (head_stores gws gwe args m0 b h)" "a = fst y"
      by blast
    have "h \<in> set [fst (?cs ! j)..snd (?cs ! j) - 1]"
      using c(2,3) j(2) by simp
    with y(1) have "y \<in> set (concat (map (head_stores gws gwe args m0 b)
                      [fst (?cs ! j)..snd (?cs ! j) - 1]))"
      by (rule in_concat_mapI)
    then have ain: "a \<in> fst ` set (concat (map (head_stores gws gwe args m0 b)
                      [fst (?cs ! j)..snd (?cs ! j) - 1]))"
      unfolding y(2) by (rule imageI)
    show "m a = expected gws gwe args m0 a
      \<or> (\<exists>j<length ?ts.
           \<exists>sts. stores_along args (out_region args) m0 (?ts ! j)
                   = Some sts \<and> a \<in> fst ` set sts)"
    proof -
      have jl: "j < length ?ts" using j(1) by (simp add: len)
      have "\<exists>sts. stores_along args (out_region args) m0 (?ts ! j)
                   = Some sts \<and> a \<in> fst ` set sts"
        using st[OF j(1)] ain by blast
      with jl show ?thesis by blast
    qed
  qed
  show ?thesis
    unfolding on_track_def using agree i2 i3 by simp
qed

lemma map_fst_head_stores:
  "map fst (head_stores gws gwe args m0 b h) = map (addr args) (head_writes args b h)"
  by (simp add: head_stores_def head_writes_def map_concat comp_def addr_def base_def)

lemma pending_tasks:
  fixes m0 :: "('a::{zero,plus,times}) heap"
  assumes val: "validated args"
    and fits: "counter_fits gws gwe args"
    and sep: "no_alias gws gwe args"
    and fr: "fair sched args"
    and b: "0 \<le> b" "b < batch_size args"
  shows "pending args (out_region args) m0 (tasks sched gws gwe args b :: 'a prog list)
       = map (addr args) (batch_writes sched args b)"
proof -
  let ?cs = "sched b 0 (heads args) GRAIN_SIZE"
  let ?ts = "tasks sched gws gwe args b :: 'a prog list"
  have len: "length ?ts = length ?cs"
    using tasks_stores(1)[OF val fits sep fr b] .
  have "map (pending_of args (out_region args) m0) ?ts
      = map (\<lambda>(s, e). concat (map (\<lambda>h. map (addr args) (head_writes args b h)) [s..e - 1])) ?cs"
  proof (rule nth_equalityI)
    show "length (map (pending_of args (out_region args) m0) ?ts)
        = length (map (\<lambda>(s, e). concat (map (\<lambda>h. map (addr args) (head_writes args b h))
                    [s..e - 1])) ?cs)"
      by (simp add: len)
  next
    fix j assume "j < length (map (pending_of args (out_region args) m0) ?ts)"
    then have j: "j < length ?cs" by (simp add: len)
    have "pending_of args (out_region args) m0 (?ts ! j)
        = map fst (concat (map (head_stores gws gwe args m0 b) [fst (?cs ! j)..snd (?cs ! j) - 1]))"
      by (simp add: pending_of_def tasks_stores(2)[OF val fits sep fr b j])
    also have "\<dots> = concat (map (\<lambda>h. map (addr args) (head_writes args b h))
                    [fst (?cs ! j)..snd (?cs ! j) - 1])"
      by (simp add: map_concat comp_def map_fst_head_stores)
    finally show "map (pending_of args (out_region args) m0) ?ts ! j
        = map (\<lambda>(s, e). concat (map (\<lambda>h. map (addr args) (head_writes args b h))
                    [s..e - 1])) ?cs ! j"
      using j by (simp add: len case_prod_beta)
  qed
  then have "pending args (out_region args) m0 ?ts
      = concat (map (\<lambda>(s, e). concat (map (\<lambda>h. map (addr args) (head_writes args b h))
                    [s..e - 1])) ?cs)"
    by (simp add: pending_def)
  also have "\<dots> = concat (map (\<lambda>h. map (addr args) (head_writes args b h)) (heads_of ?cs))"
    by (rule heads_of_concat)
  also have "\<dots> = map (addr args) (batch_writes sched args b)"
    by (simp add: batch_writes_def map_concat comp_def)
  finally show ?thesis .
qed

lemma stored_snoc [simp]: "stored args (tr @ [e]) = stored args tr @ event_store args e"
  by (simp add: stored_def)

lemma stored_Nil [simp]: "stored args [] = []"
  by (simp add: stored_def)

lemma writes_of_launch_log:
  assumes "0 < heads args"
  shows "writes_of (launch_log sched gws gwe args)
       = concat (map (batch_writes sched args) [0..batch_size args - 1])"
proof -
  have "batch_writes sched args
      = (\<lambda>b. concat (map (head_writes args b) (heads_of (sched b 0 (heads args) GRAIN_SIZE))))"
    by (rule ext) (simp add: batch_writes_def)
  then show ?thesis
    using assms
    by (simp add: launch_log_def writes_of_concat comp_def writes_of_head_log)
qed

lemma addr_Output: "addr args (Output, i) = output' args + i"
  by (simp add: addr_def base_def)

lemma cells_upto_all:
  assumes "validated args" "fair sched args"
  shows "distinct (cells_upto sched args (batch_size args))"
    and "set (cells_upto sched args (batch_size args)) = out_region args"
proof -
  have H: "0 < heads args" using assms(1) by (simp add: validated_def)
  have eq: "cells_upto sched args (batch_size args)
      = map (addr args) (writes_of (launch_log sched gws gwe args))" for gws gwe
    by (simp add: cells_upto_def writes_of_launch_log[OF H])
  have s: "set (writes_of (launch_log sched get_window_start get_window_end args))
      = {Output} \<times> {0..<numel args}"
    using assms by (rule set_launch_writes)
  have d: "distinct (writes_of (launch_log sched get_window_start get_window_end args))"
    using assms(2) by (rule distinct_launch_writes)
  have "inj_on (addr args) ({Output} \<times> {0..<numel args})"
    by (auto simp: inj_on_def addr_Output)
  then show "distinct (cells_upto sched args (batch_size args))"
    unfolding eq[of get_window_start get_window_end] using d s by (simp add: distinct_map)
  have "addr args ` ({Output} \<times> {0..<numel args}) = out_region args"
  proof (intro set_eqI iffI)
    fix a assume "a \<in> addr args ` ({Output} \<times> {0..<numel args})"
    then show "a \<in> out_region args" by (auto simp: addr_Output out_region_def)
  next
    fix a assume "a \<in> out_region args"
    then have "a - output' args \<in> {0..<numel args}" by (auto simp: out_region_def)
    then have "(Output, a - output' args) \<in> {Output} \<times> {0..<numel args}" by simp
    moreover have "a = addr args (Output, a - output' args)" by (simp add: addr_Output)
    ultimately show "a \<in> addr args ` ({Output} \<times> {0..<numel args})" by (rule rev_image_eqI)
  qed
  then show "set (cells_upto sched args (batch_size args)) = out_region args"
    unfolding eq[of get_window_start get_window_end] using s by simp
qed

lemma cells_upto_Suc:
  assumes "0 \<le> b"
  shows "cells_upto sched args (b + 1)
       = cells_upto sched args b @ map (addr args) (batch_writes sched args b)"
proof -
  have "[0..b] = [0..b - 1] @ [b]" using assms by (rule upto_rec2)
  then show ?thesis by (simp add: cells_upto_def)
qed

lemma cells_upto_distinct:
  assumes "validated args" "fair sched args" "0 \<le> b" "b \<le> batch_size args"
  shows "distinct (cells_upto sched args b)"
proof (cases "b = batch_size args")
  case True
  then show ?thesis using cells_upto_all(1)[OF assms(1,2)] by simp
next
  case False
  then have "[0..batch_size args - 1] = [0..b - 1] @ [b..batch_size args - 1]"
    using assms(3,4) by (intro upto_split1) auto
  then have "cells_upto sched args (batch_size args)
      = cells_upto sched args b
        @ map (addr args) (concat (map (batch_writes sched args) [b..batch_size args - 1]))"
    by (simp add: cells_upto_def)
  then show ?thesis using cells_upto_all(1)[OF assms(1,2)] by simp
qed

lemma pre_0: "pre gws gwe args mem 0 = mem"
  by (simp add: pre_def)

lemma pre_Suc:
  assumes "0 \<le> b"
  shows "(\<lambda>a. if a \<in> batch_cells args b then expected gws gwe args mem a
              else pre gws gwe args mem b a) = pre gws gwe args mem (b + 1)"
proof -
  have "{0..<b + 1} = insert b {0..<b}" using assms by auto
  then have "(\<Union>b'\<in>{0..<b + 1}. batch_cells args b')
      = batch_cells args b \<union> (\<Union>b'\<in>{0..<b}. batch_cells args b')"
    by simp
  then show ?thesis by (auto simp: pre_def)
qed

lemma pre_all:
  assumes "validated args"
  shows "pre gws gwe args mem (batch_size args) = final_heap gws gwe args mem"
proof -
  have pos: "0 < heads args" "0 < length' args" "0 < dim args"
    using assms by (auto simp: validated_def)
  have "(\<Union>b\<in>{0..<batch_size args}. batch_cells args b) = out_region args"
    using out_region_cells[OF pos]
    by (simp add: batch_cells_def head_cells_def row_cells_def)
  then show ?thesis by (simp add: pre_def final_heap_def)
qed

lemma pre_outside:
  assumes "0 \<le> b" "b \<le> batch_size args" "a \<notin> out_region args"
  shows "pre gws gwe args mem b a = mem a"
proof -
  have "a \<notin> batch_cells args b'" if "b' \<in> {0..<b}" for b'
  proof -
    have "batch_cells args b' \<subseteq> out_region args"
      using that assms(2) by (intro batch_cells_sub) auto
    then show ?thesis using assms(3) by blast
  qed
  then show ?thesis by (auto simp: pre_def)
qed

lemma fuel_from_step:
  assumes "b < batch_size args"
  shows "fuel_from sched gws gwe args mem b
       = 2 + total_left args mem (tasks sched gws gwe args b) + fuel_from sched gws gwe args mem (b + 1)"
proof -
  have "[b..batch_size args - 1] = b # [b + 1..batch_size args - 1]"
    using assms by (simp add: upto_rec1)
  then show ?thesis by (simp add: fuel_from_def)
qed

lemma on_course_step:
  fixes mem :: "('a::{zero,plus,times}) heap"
  assumes val: "validated args"
    and fits: "counter_fits gws gwe args"
    and sep: "no_alias gws gwe args"
    and fr: "fair sched args"
    and inv: "on_course sched gws gwe args mem tr c"
    and st: "launch_step sched gws gwe args c e c'"
  shows "on_course sched gws gwe args mem (tr @ [e]) c'
       \<and> Suc (fuel sched gws gwe args mem c') = fuel sched gws gwe args mem c"
  using st
proof cases
  case (fork b m)
  have b: "0 \<le> b" "b < batch_size args" and m: "m = pre gws gwe args mem b"
    and d: "distinct (stored args tr)"
    and s: "set (stored args tr) = set (cells_upto sched args b)"
    using inv fork by simp_all
  have agree: "\<forall>a. a \<notin> out_region args \<longrightarrow> pre gws gwe args mem b a = mem a"
    using b by (simp add: pre_outside)
  have t: "on_track args (out_region args) mem (expected gws gwe args mem) (batch_cells args b)
      (pre gws gwe args mem b) (tasks sched gws gwe args b) (pre gws gwe args mem b)"
    using val fits sep fr b agree by (rule tasks_on_track)
  have p: "pending args (out_region args) mem (tasks sched gws gwe args b :: 'a prog list)
      = map (addr args) (batch_writes sched args b)"
    using val fits sep fr b by (rule pending_tasks)
  have c: "cells_upto sched args (b + 1)
      = cells_upto sched args b @ map (addr args) (batch_writes sched args b)"
    using b(1) by (rule cells_upto_Suc)
  have dc: "distinct (cells_upto sched args (b + 1))"
    using val fr b by (intro cells_upto_distinct) auto
  have d': "distinct (stored args tr @ map (addr args) (batch_writes sched args b))"
    using dc d s unfolding c by auto
  have s': "set (stored args tr @ map (addr args) (batch_writes sched args b))
      = set (cells_upto sched args (b + 1))"
    using s unfolding c by simp
  have 1: "on_course sched gws gwe args mem (tr @ [e]) c'"
    using b t d' s' by (simp add: fork m p)
  have r: "fuel_from sched gws gwe args mem b
       = 2 + total_left args mem (tasks sched gws gwe args b) + fuel_from sched gws gwe args mem (b + 1)"
    using b(2) by (rule fuel_from_step)
  have 2: "Suc (fuel sched gws gwe args mem c') = fuel sched gws gwe args mem c"
    by (simp add: fork r)
  show ?thesis using 1 2 by simp
next
  case (load j ps buf idx f b m)
  have b: "0 \<le> b" "b < batch_size args"
    and t: "on_track args (out_region args) mem (expected gws gwe args mem) (batch_cells args b)
        (pre gws gwe args mem b) ps m"
    and d: "distinct (stored args tr @ pending args (out_region args) mem ps)"
    and s: "set (stored args tr @ pending args (out_region args) mem ps)
       = set (cells_upto sched args (b + 1))"
    using inv load by simp_all
  have W: "batch_cells args b \<subseteq> out_region args" using b by (rule batch_cells_sub)
  note l = on_track_load[OF W t load(4,5)]
  have 1: "on_course sched gws gwe args mem (tr @ [e]) c'"
    using b l(1) d s by (simp add: load l(3))
  have 2: "Suc (fuel sched gws gwe args mem c') = fuel sched gws gwe args mem c"
    using l(2) by (simp add: load)
  show ?thesis using 1 2 by simp
next
  case (store j ps buf idx v p b m)
  have b: "0 \<le> b" "b < batch_size args"
    and t: "on_track args (out_region args) mem (expected gws gwe args mem) (batch_cells args b)
        (pre gws gwe args mem b) ps m"
    and d: "distinct (stored args tr @ pending args (out_region args) mem ps)"
    and s: "set (stored args tr @ pending args (out_region args) mem ps)
       = set (cells_upto sched args (b + 1))"
    using inv store by simp_all
  have W: "batch_cells args b \<subseteq> out_region args" using b by (rule batch_cells_sub)
  note l = on_track_store[OF W t store(4,5)]
  have dp: "distinct (pending args (out_region args) mem ps)" using d by simp
  note l4 = l(4)[OF dp]
  have d': "distinct ((stored args tr @ [base args buf + idx])
      @ pending args (out_region args) mem (ps[j := p]))"
    using d l(3) l4 by auto
  have s': "set ((stored args tr @ [base args buf + idx])
      @ pending args (out_region args) mem (ps[j := p])) = set (cells_upto sched args (b + 1))"
    using s l(3) by auto
  have 1: "on_course sched gws gwe args mem (tr @ [e]) c'"
    using b l(1) d' s' by (simp add: store)
  have 2: "Suc (fuel sched gws gwe args mem c') = fuel sched gws gwe args mem c"
    using l(2) by (simp add: store)
  show ?thesis using 1 2 by simp
next
  case (join ps b m)
  have b: "0 \<le> b" "b < batch_size args"
    and t: "on_track args (out_region args) mem (expected gws gwe args mem) (batch_cells args b)
        (pre gws gwe args mem b) ps m"
    and d: "distinct (stored args tr @ pending args (out_region args) mem ps)"
    and s: "set (stored args tr @ pending args (out_region args) mem ps)
       = set (cells_upto sched args (b + 1))"
    using inv join by simp_all
  note l = on_track_finished[OF t join(4)]
  have m: "m = pre gws gwe args mem (b + 1)"
    using l(1) pre_Suc[OF b(1), of args gws gwe mem] by simp
  have 1: "on_course sched gws gwe args mem (tr @ [e]) c'"
    using b m d s by (simp add: join l(2))
  have 2: "Suc (fuel sched gws gwe args mem c') = fuel sched gws gwe args mem c"
    using l(3) by (simp add: join)
  show ?thesis using 1 2 by simp
qed

lemma on_course_run:
  fixes mem :: "('a::{zero,plus,times}) heap"
  assumes val: "validated args"
    and fits: "counter_fits gws gwe args"
    and sep: "no_alias gws gwe args"
    and fr: "fair sched args"
    and run: "launch_run sched gws gwe args (Serial 0 mem) tr c"
  shows "on_course sched gws gwe args mem tr c
       \<and> length tr + fuel sched gws gwe args mem c = fuel_from sched gws gwe args mem 0"
  using run
proof (induction "Serial 0 mem :: 'a config" tr c rule: launch_run.induct)
  case start
  have "0 \<le> batch_size args" using val by (simp add: validated_def)
  then show ?case by (simp add: pre_0 cells_upto_def)
next
  case (step tr c1 e c2)
  have st: "launch_step sched gws gwe args c1 e c2" by fact
  have ih: "on_course sched gws gwe args mem tr c1
       \<and> length tr + fuel sched gws gwe args mem c1 = fuel_from sched gws gwe args mem 0"
    by fact
  then have inv: "on_course sched gws gwe args mem tr c1" by simp
  have "on_course sched gws gwe args mem (tr @ [e]) c2
       \<and> Suc (fuel sched gws gwe args mem c2) = fuel sched gws gwe args mem c1"
    using val fits sep fr inv st by (rule on_course_step)
  then show ?case using ih by simp
qed

lemma on_course_progress:
  assumes "on_course sched gws gwe args mem tr c" "\<not> returned args c"
  shows "\<exists>e c'. launch_step sched gws gwe args c e c'"
proof (cases c)
  case (Serial b m)
  then have "b < batch_size args" using assms(2) by simp
  then show ?thesis unfolding Serial using launch_step.fork by blast
next
  case (Parallel b ps m)
  show ?thesis
  proof (cases "\<forall>p\<in>set ps. p = Done")
    case True
    then show ?thesis unfolding Parallel using launch_step.join by blast
  next
    case False
    have "on_track args (out_region args) mem (expected gws gwe args mem) (batch_cells args b)
        (pre gws gwe args mem b) ps m"
      using assms(1) by (simp add: Parallel)
    then show ?thesis unfolding Parallel using False by (rule on_track_progress)
  qed
qed

lemma on_course_returned:
  assumes val: "validated args" and fr: "fair sched args"
    and inv: "on_course sched gws gwe args mem tr c" and ret: "returned args c"
  shows "heap_of c = final_heap gws gwe args mem"
    and "distinct (stored args tr)" and "set (stored args tr) = out_region args"
proof -
  obtain b m where c: "c = Serial b m" "batch_size args \<le> b"
    using ret by (cases c) simp_all
  have b: "b = batch_size args" and m: "m = pre gws gwe args mem b"
    and d: "distinct (stored args tr)"
    and s: "set (stored args tr) = set (cells_upto sched args b)"
    using inv c by simp_all
  show "heap_of c = final_heap gws gwe args mem"
    using pre_all[OF val] by (simp add: c m b)
  show "distinct (stored args tr)" by (rule d)
  show "set (stored args tr) = out_region args"
    using s cells_upto_all(2)[OF val fr] by (simp add: b)
qed

lemma on_course_completes:
  fixes mem :: "('a::{zero,plus,times}) heap"
  assumes val: "validated args"
    and fits: "counter_fits gws gwe args"
    and sep: "no_alias gws gwe args"
    and fr: "fair sched args"
    and run: "launch_run sched gws gwe args (Serial 0 mem) tr c"
  shows "\<exists>tr' c'. launch_run sched gws gwe args (Serial 0 mem) tr' c' \<and> returned args c'"
  using run
proof (induction "fuel sched gws gwe args mem c" arbitrary: tr c rule: less_induct)
  case less
  show ?case
  proof (cases "returned args c")
    case True
    then show ?thesis using less.prems by blast
  next
    case False
    have inv: "on_course sched gws gwe args mem tr c"
      using on_course_run[OF val fits sep fr less.prems] by simp
    obtain e c' where st: "launch_step sched gws gwe args c e c'"
      using on_course_progress[OF inv False] by blast
    have "Suc (fuel sched gws gwe args mem c') = fuel sched gws gwe args mem c"
      using on_course_step[OF val fits sep fr inv st] by simp
    then have lt: "fuel sched gws gwe args mem c' < fuel sched gws gwe args mem c" by simp
    have "launch_run sched gws gwe args (Serial 0 mem) (tr @ [e]) c'"
      using less.prems st by (rule launch_run.step)
    then show ?thesis using less.hyps[OF lt] by blast
  qed
qed

lemma distinct_concat_nth:
  assumes "distinct (concat xss)" "j < length xss" "k < length xss" "j \<noteq> k"
  shows "set (xss ! j) \<inter> set (xss ! k) = {}"
  using assms
proof (induction xss arbitrary: j k)
  case Nil
  then show ?case by simp
next
  case (Cons xs xss)
  have d: "distinct (concat xss)" and dis: "\<And>ys. ys \<in> set xss \<Longrightarrow> set xs \<inter> set ys = {}"
    using Cons.prems(1) by auto
  show ?case
  proof (cases j)
    case 0
    then obtain k' where k: "k = Suc k'" "k' < length xss"
      using Cons.prems(3,4) by (cases k) auto
    then have "xss ! k' \<in> set xss" by simp
    then show ?thesis using dis 0 k by simp
  next
    case (Suc j')
    then have j: "j' < length xss" using Cons.prems(2) by simp
    show ?thesis
    proof (cases k)
      case 0
      have "xss ! j' \<in> set xss" using j by simp
      then show ?thesis using dis 0 Suc by auto
    next
      case k: (Suc k')
      then have "k' < length xss" "j' \<noteq> k'" using Cons.prems(3,4) Suc by simp_all
      then show ?thesis using Cons.IH[OF d j] Suc k by simp
    qed
  qed
qed

lemma on_track_no_race:
  assumes W: "W \<subseteq> R" and inv: "on_track args R m0 T W minit ps m"
    and d: "distinct (pending args R m0 ps)"
  shows "\<not> race args ps"
proof
  assume "race args ps"
  then obtain j k a w where jk: "j < length ps" "k < length ps" "j \<noteq> k"
    and nj: "next_access args (ps ! j) = Some (True, a)"
    and nk: "next_access args (ps ! k) = Some (w, a)"
    by (auto simp: race_def)
  obtain sj where sj: "stores_along args R m0 (ps ! j) = Some sj"
      "\<forall>x\<in>set sj. fst x \<in> W \<and> snd x = T (fst x)"
    using inv jk(1) by (auto simp: on_track_def)
  obtain sk where sk: "stores_along args R m0 (ps ! k) = Some sk"
    using inv jk(2) by (auto simp: on_track_def)
  obtain buf idx v p where pj: "ps ! j = Store buf idx v p" "a = base args buf + idx"
    using nj by (cases "ps ! j") auto
  have aj: "a \<in> set (pending_of args R m0 (ps ! j))"
    using sj(1) pj by (auto simp: pending_of_def)
  have aW: "a \<in> W" using sj pj by auto
  have ak: "a \<in> set (pending_of args R m0 (ps ! k))"
  proof (cases "ps ! k")
    case Done
    then show ?thesis using nk by simp
  next
    case Undefined
    then show ?thesis using nk by simp
  next
    case (Load buf' idx' f)
    then have "a = base args buf' + idx'" using nk by simp
    then have "a \<notin> R" using sk Load by (auto split: if_splits)
    then show ?thesis using aW W by blast
  next
    case (Store buf' idx' v' p')
    then have "a = base args buf' + idx'" using nk by simp
    then show ?thesis using sk Store by (auto simp: pending_of_def)
  qed
  have "set (map (pending_of args R m0) ps ! j) \<inter> set (map (pending_of args R m0) ps ! k) = {}"
    using d jk unfolding pending_def by (intro distinct_concat_nth) simp_all
  then show False using aj ak jk by auto
qed

lemma on_course_no_race:
  assumes "on_course sched gws gwe args mem tr c"
  shows "\<not> racy args c"
proof (cases c)
  case (Serial b m)
  then show ?thesis by simp
next
  case (Parallel b ps m)
  have b: "0 \<le> b" "b < batch_size args"
    and t: "on_track args (out_region args) mem (expected gws gwe args mem) (batch_cells args b)
        (pre gws gwe args mem b) ps m"
    and d: "distinct (stored args tr @ pending args (out_region args) mem ps)"
    using assms Parallel by simp_all
  have W: "batch_cells args b \<subseteq> out_region args" using b by (rule batch_cells_sub)
  have dp: "distinct (pending args (out_region args) mem ps)" using d by simp
  have "\<not> race args ps" using W t dp by (rule on_track_no_race)
  then show ?thesis by (simp add: Parallel)
qed

lemma launch_interleaved:
  fixes mem :: "('a::{zero,plus,times}) heap"
  assumes val: "validated args"
    and fits: "counter_fits gws gwe args"
    and sep: "no_alias gws gwe args"
    and fr: "fair sched args"
  shows "(\<exists>tr c. launch_run sched gws gwe args (Serial 0 mem) tr c \<and> returned args c)
    \<and> (\<exists>N. \<forall>tr c. launch_run sched gws gwe args (Serial 0 mem) tr c \<longrightarrow>
          length tr \<le> N \<and> \<not> racy args c
        \<and> (returned args c \<or> (\<exists>e c'. launch_step sched gws gwe args c e c'))
        \<and> (returned args c \<longrightarrow> heap_of c = final_heap gws gwe args mem
              \<and> distinct (stored args tr) \<and> set (stored args tr) = out_region args))"
proof (intro conjI exI[of _ "fuel_from sched gws gwe args mem 0"] allI impI)
  show "\<exists>tr c. launch_run sched gws gwe args (Serial 0 mem) tr c \<and> returned args c"
    using on_course_completes[OF val fits sep fr launch_run.start] .
next
  fix tr c assume run: "launch_run sched gws gwe args (Serial 0 mem) tr c"
  note r = on_course_run[OF val fits sep fr run]
  show "length tr \<le> fuel_from sched gws gwe args mem 0" using r by simp
  show "\<not> racy args c" using on_course_no_race[of sched gws gwe args mem tr c] r by blast
  show "returned args c \<or> (\<exists>e c'. launch_step sched gws gwe args c e c')"
    using on_course_progress[of sched gws gwe args mem tr c] r by blast
  show "heap_of c = final_heap gws gwe args mem" if "returned args c"
    using on_course_returned(1)[OF val fr _ that] r by blast
  show "distinct (stored args tr)" if "returned args c"
    using on_course_returned(2)[OF val fr _ that] r by blast
  show "set (stored args tr) = out_region args" if "returned args c"
    using on_course_returned(3)[OF val fr _ that] r by blast
qed

text \<open>
  C9 (amended): for every validated input on which the counter \<open>xi\<close> stays an
  \<^verbatim>\<open>int32_t\<close> and whose output overlaps no address read: under every schedule that
  partitions the heads the call returns, it stores to the output only, to every element
  of the output and to none twice, so that each output element is written once, by the
  one task that has its head; and two such schedules, whatever their chunks and the
  order in which their tasks run, leave the same memory, the one that holds the
  aggregate in every output element. The same holds when the tasks of a batch element
  run concurrently: a run exists in which the call returns; and however the loads and
  stores of the tasks interleave, the call makes at most \<open>N\<close> steps, no configuration it
  reaches has a data race, every configuration it reaches has returned or can make a
  step, and once it has returned the memory is that same memory and the addresses
  stored to are those of the output, each of them once.
\<close>

theorem one_writer_any_schedule:
  fixes mem :: "('a::{zero,plus,times}) heap"
  assumes "validated args" "counter_fits gws gwe args" "no_alias gws gwe args"
    and "fair sched args" "fair sched' args"
  shows "\<exists>mem' log log' N.
      launch_traced sched gws gwe args (mem, []) = Some (mem', log)
    \<and> launch_traced sched' gws gwe args (mem, []) = Some (mem', log')
    \<and> launch sched gws gwe args mem = Some mem'
    \<and> launch sched' gws gwe args mem = Some mem'
    \<and> mem' = final_heap gws gwe args mem
    \<and> distinct (writes_of log) \<and> set (writes_of log) = {Output} \<times> {0..<numel args}
    \<and> distinct (writes_of log') \<and> set (writes_of log') = {Output} \<times> {0..<numel args}
    \<and> (\<exists>tr c. launch_run sched gws gwe args (Serial 0 mem) tr c \<and> returned args c)
    \<and> (\<forall>tr c. launch_run sched gws gwe args (Serial 0 mem) tr c \<longrightarrow>
          length tr \<le> N \<and> \<not> racy args c
        \<and> (returned args c \<or> (\<exists>e c'. launch_step sched gws gwe args c e c'))
        \<and> (returned args c \<longrightarrow> heap_of c = mem'
              \<and> distinct (stored args tr) \<and> set (stored args tr) = out_region args))"
proof -
  have 1: "launch sched gws gwe args mem = Some (final_heap gws gwe args mem)"
    using assms(1-4) by (rule launch_result)
  have 2: "launch sched' gws gwe args mem = Some (final_heap gws gwe args mem)"
    using assms(1-3,5) by (rule launch_result)
  have 3: "launch_traced sched gws gwe args (mem, [])
      = Some (final_heap gws gwe args mem, launch_log sched gws gwe args)"
    by (simp add: launch_traced_launch 1)
  have 4: "launch_traced sched' gws gwe args (mem, [])
      = Some (final_heap gws gwe args mem, launch_log sched' gws gwe args)"
    by (simp add: launch_traced_launch 2)
  have 5: "distinct (writes_of (launch_log sched gws gwe args))"
    "distinct (writes_of (launch_log sched' gws gwe args))"
    using distinct_launch_writes[OF assms(4)] distinct_launch_writes[OF assms(5)] by simp_all
  have 6: "set (writes_of (launch_log sched gws gwe args)) = {Output} \<times> {0..<numel args}"
    "set (writes_of (launch_log sched' gws gwe args)) = {Output} \<times> {0..<numel args}"
    using set_launch_writes[OF assms(1,4)] set_launch_writes[OF assms(1,5)] by simp_all
  obtain N where
    7: "\<exists>tr c. launch_run sched gws gwe args (Serial 0 mem) tr c \<and> returned args c"
    and 8: "\<forall>tr c. launch_run sched gws gwe args (Serial 0 mem) tr c \<longrightarrow>
          length tr \<le> N \<and> \<not> racy args c
        \<and> (returned args c \<or> (\<exists>e c'. launch_step sched gws gwe args c e c'))
        \<and> (returned args c \<longrightarrow> heap_of c = final_heap gws gwe args mem
              \<and> distinct (stored args tr) \<and> set (stored args tr) = out_region args)"
    using launch_interleaved[OF assms(1-4), of mem] by blast
  show ?thesis
    by (intro exI[of _ "final_heap gws gwe args mem"] exI[of _ "launch_log sched gws gwe args"]
          exI[of _ "launch_log sched' gws gwe args"] exI[of _ N] conjI)
       (rule 3 4 1 2 refl 5 6 7 8)+
qed

theorem one_writer_any_schedule_witness:
  "validated example_args \<and> counter_fits get_window_start get_window_end example_args
   \<and> no_alias get_window_start get_window_end example_args
   \<and> fair reversed example_args \<and> fair sequential example_args
   \<and> reversed 0 0 (heads example_args) GRAIN_SIZE = [(1, 2), (0, 1)]
   \<and> sequential 0 0 (heads example_args) GRAIN_SIZE = [(0, 2)]
   \<and> (\<exists>mem' log log'.
        launch_traced reversed get_window_start get_window_end example_args
          (\<lambda>a. a :: int, []) = Some (mem', log)
      \<and> launch_traced sequential get_window_start get_window_end example_args
          (\<lambda>a. a, []) = Some (mem', log')
      \<and> mem' 213 = 6445
      \<and> distinct (writes_of log) \<and> set (writes_of log) = {Output} \<times> {0..<16}
      \<and> distinct (writes_of log') \<and> set (writes_of log') = {Output} \<times> {0..<16})
   \<and> (\<exists>tr c.
        launch_run reversed get_window_start get_window_end example_args
          (Serial 0 (\<lambda>a. a :: int)) tr c
      \<and> returned example_args c \<and> \<not> racy example_args c \<and> heap_of c 213 = 6445
      \<and> distinct (stored example_args tr) \<and> set (stored example_args tr) = {200..<216})"
proof -
  have s: "reversed 0 0 (heads example_args) GRAIN_SIZE = [(1, 2), (0, 1)]"
    "sequential 0 0 (heads example_args) GRAIN_SIZE = [(0, 2)]"
    by (simp_all add: sequential_def reversed_def example_args_def upto_rec1)
  have n: "numel example_args = 16" by (simp add: numel_def example_args_def)
  have r: "out_region example_args = {200..<216}"
    by (simp add: out_region_def numel_def example_args_def)
  have v: "final_heap get_window_start get_window_end example_args (\<lambda>a. a :: int) 213 = 6445"
    by (simp add: example_eval example_args_def)
  obtain mem' log log' N where f:
    "launch_traced reversed get_window_start get_window_end example_args
          (\<lambda>a. a :: int, []) = Some (mem', log)"
    "launch_traced sequential get_window_start get_window_end example_args
          (\<lambda>a. a, []) = Some (mem', log')"
    "mem' = final_heap get_window_start get_window_end example_args (\<lambda>a. a)"
    "distinct (writes_of log)" "set (writes_of log) = {Output} \<times> {0..<numel example_args}"
    "distinct (writes_of log')" "set (writes_of log') = {Output} \<times> {0..<numel example_args}"
    and ex: "\<exists>tr c. launch_run reversed get_window_start get_window_end example_args
          (Serial 0 (\<lambda>a. a :: int)) tr c \<and> returned example_args c"
    and al: "\<forall>tr c. launch_run reversed get_window_start get_window_end example_args
          (Serial 0 (\<lambda>a. a :: int)) tr c \<longrightarrow>
          length tr \<le> N \<and> \<not> racy example_args c
        \<and> (returned example_args c
            \<or> (\<exists>e c'. launch_step reversed get_window_start get_window_end example_args c e c'))
        \<and> (returned example_args c \<longrightarrow> heap_of c = mem'
              \<and> distinct (stored example_args tr)
              \<and> set (stored example_args tr) = out_region example_args)"
    using one_writer_any_schedule[OF ex_validated ex_fits ex_no_alias fair_reversed
        fair_sequential, of "\<lambda>a. a :: int"]
    by blast
  have a: "\<exists>mem' log log'.
        launch_traced reversed get_window_start get_window_end example_args
          (\<lambda>a. a :: int, []) = Some (mem', log)
      \<and> launch_traced sequential get_window_start get_window_end example_args
          (\<lambda>a. a, []) = Some (mem', log')
      \<and> mem' 213 = 6445
      \<and> distinct (writes_of log) \<and> set (writes_of log) = {Output} \<times> {0..<16}
      \<and> distinct (writes_of log') \<and> set (writes_of log') = {Output} \<times> {0..<16}"
    using f n v by auto
  obtain tr c where run: "launch_run reversed get_window_start get_window_end example_args
          (Serial 0 (\<lambda>a. a :: int)) tr c" and ret: "returned example_args c"
    using ex by blast
  have p: "\<not> racy example_args c" "heap_of c = mem'" "distinct (stored example_args tr)"
    "set (stored example_args tr) = out_region example_args"
    using al run ret by blast+
  have b: "\<exists>tr c.
        launch_run reversed get_window_start get_window_end example_args
          (Serial 0 (\<lambda>a. a :: int)) tr c
      \<and> returned example_args c \<and> \<not> racy example_args c \<and> heap_of c 213 = 6445
      \<and> distinct (stored example_args tr) \<and> set (stored example_args tr) = {200..<216}"
  proof -
    have h: "heap_of c 213 = 6445" using p(2) f(3) v by simp
    have st: "set (stored example_args tr) = {200..<216}" using p(4) r by simp
    show ?thesis
      by (intro exI[of _ tr] exI[of _ c] conjI) (rule run ret p(1) h p(3) st)+
  qed
  show ?thesis
    using ex_validated ex_fits ex_no_alias fair_sequential[of example_args]
      fair_reversed[of example_args] s a b
    by simp
qed

text \<open>
  Against C9 as stated: on the validated input with dilation \<open>2\<^sup>3\<^sup>1 - 1\<close> the call
  does not return, under either schedule: output element 1 is never written.
\<close>

theorem writes_undefined_on_overflow:
  "validated big_args \<and> no_alias get_window_start get_window_end big_args
   \<and> fair sequential big_args \<and> fair reversed big_args
   \<and> launch_traced sequential get_window_start get_window_end big_args (\<lambda>a. 0 :: int, []) = None
   \<and> launch_traced reversed get_window_start get_window_end big_args (\<lambda>a. 0 :: int, []) = None"
  using big_validated big_no_alias fair_sequential[of big_args] fair_reversed[of big_args]
  by (simp add: launch_traced_launch big_sequential_undefined big_reversed_undefined)

end
